theory Spec2Isabelle
  imports Complex_Main "HOL-Library.Word"
begin

section \<open>Daily-Briefing-AI: the audio pipeline and the download name\<close>

text \<open>
  A shallow embedding of the audio utilities (decodeBase64, decodeAudioData, encodeWAV,
  floatTo16BitPCM, createWavUrl, generateBackgroundTrack, mixAudioWithMusic) and of
  handleDownload in components/Player.tsx.

  Conventions.
  \<^item> A byte is an \<open>8 word\<close>, an Int16Array element a \<open>16 word\<close> read with \<open>sint\<close>.
  \<^item> A JavaScript Number is modelled as a \<open>real\<close>. For the PCM paths this is exact:
    an int16 divided by 32768 is representable in a Float32, and a Float32 times 32768 or
    32767 is representable in a double.
  \<^item> Where a comparison or a conversion to an integer depends on the rounding of a double
    operation, the rounding is written out with \<open>fl\<close>, round-to-nearest-even to 53 bits:
    the \<open>duration\<close> of a buffer, the frame counts \<open>duration * 44100\<close> and
    \<open>sampleRate * duration\<close>, the time \<open>i / sampleRate\<close> of a frame, and the literals and
    the argument of the sine in the tests of the UPBEAT branch. The remainder \<open>%\<close> of two
    doubles is exact. The sample values themselves (sin, exp, sums and products) and the
    envelope are computed in the reals, the idealisation of the double arithmetic; the
    envelope's tests \<open>time < 0.5\<close> and \<open>time > duration - 1.5\<close> come out the same in
    doubles, since \<open>duration - 1.5\<close> is exact from 0.75 up to \<open>2 ^ 52\<close> and negative below.
  \<^item> An exception of the host (RangeError, NotSupportedError, InvalidCharacterError) is a
    value \<open>Inl e\<close> of a sum type.
  \<^item> Math.random is a stream \<open>rnd :: nat \<Rightarrow> real\<close>; a counter, threaded through the
    synthesis loop, says which draw comes next.
\<close>

subsection \<open>Strings of UTF-16 code units\<close>

type_synonym js_string = "nat list"

definition js :: "string \<Rightarrow> js_string" where
  "js s = map of_char s"

subsection \<open>Player.tsx: handleDownload\<close>

text \<open>The character class \<open>[^a-z0-9]\<close> with the flags \<open>gi\<close> (no \<open>u\<close> flag): a code unit
  is kept exactly when it is an ASCII letter of either case or an ASCII digit.\<close>

definition isAlnum :: "nat \<Rightarrow> bool" where
  "isAlnum cu \<longleftrightarrow> (97 \<le> cu \<and> cu \<le> 122) \<or> (65 \<le> cu \<and> cu \<le> 90) \<or> (48 \<le> cu \<and> cu \<le> 57)"

text \<open>\<open>title.replace(/[^a-z0-9]/gi, '_')\<close>: every code unit outside the class becomes
  \<open>'_'\<close> (code unit 95).\<close>

definition replaceNonAlnum :: "js_string \<Rightarrow> js_string" where
  "replaceNonAlnum title = map (\<lambda>cu. if isAlnum cu then cu else 95) title"

text \<open>\<open>toLowerCase\<close> on the code units that can reach it here (ASCII letters, digits and
  the underscore): only \<open>A\<close>..\<open>Z\<close> change.\<close>

definition toLowerCase :: "js_string \<Rightarrow> js_string" where
  "toLowerCase s = map (\<lambda>cu. if 65 \<le> cu \<and> cu \<le> 90 then cu + 32 else cu) s"

definition safeTitle :: "js_string \<Rightarrow> js_string" where
  "safeTitle title =
     (let s = toLowerCase (replaceNonAlnum title)
      in if s = [] then js ''daily_briefing'' else s)"

text \<open>handleDownload returns early when there is no audio URL (null or the empty string);
  otherwise the link's \<open>download\<close> attribute is the value computed here.\<close>

definition handleDownload :: "js_string option \<Rightarrow> js_string \<Rightarrow> js_string option" where
  "handleDownload internalAudioUrl title =
     (case internalAudioUrl of
        None \<Rightarrow> None
      | Some url \<Rightarrow> if url = [] then None else Some (safeTitle title @ js ''.wav''))"

text \<open>The download name as the specification words it: the non-alphanumeric characters are
  removed, the rest lowercased, the default used when nothing is left.\<close>

definition spec_downloadName :: "js_string \<Rightarrow> js_string" where
  "spec_downloadName title =
     (let s = toLowerCase (filter isAlnum title)
      in (if s = [] then js ''daily_briefing'' else s) @ js ''.wav'')"


subsection \<open>Errors of the host\<close>

datatype error = InvalidCharacterError | RangeError | NotSupportedError

subsection \<open>atob and decodeBase64\<close>

text \<open>\<open>atob\<close> is the host's forgiving-base64 decoder: ASCII whitespace is removed, one or
  two trailing \<open>=\<close> are removed when the length is a multiple of 4, a length that is 1
  modulo 4 or a code unit outside the base64 alphabet raises InvalidCharacterError, and
  the sextets are packed into bytes, the bits left over being dropped. The result is a
  binary string: one code unit below 256 per byte.\<close>

definition isAsciiWhitespace :: "nat \<Rightarrow> bool" where
  "isAsciiWhitespace cu \<longleftrightarrow> cu = 9 \<or> cu = 10 \<or> cu = 12 \<or> cu = 13 \<or> cu = 32"

definition b64value :: "nat \<Rightarrow> nat option" where
  "b64value cu =
     (if 65 \<le> cu \<and> cu \<le> 90 then Some (cu - 65)
      else if 97 \<le> cu \<and> cu \<le> 122 then Some (cu - 71)
      else if 48 \<le> cu \<and> cu \<le> 57 then Some (cu + 4)
      else if cu = 43 then Some 62
      else if cu = 47 then Some 63
      else None)"

definition stripPadding :: "js_string \<Rightarrow> js_string" where
  "stripPadding d =
     (if length d mod 4 = 0 \<and> d \<noteq> [] \<and> last d = 61
      then (if butlast d \<noteq> [] \<and> last (butlast d) = 61 then butlast (butlast d) else butlast d)
      else d)"

fun sextetsToBytes :: "nat list \<Rightarrow> nat list" where
  "sextetsToBytes (a # b # c # d # r) =
     (a * 4 + b div 16) # ((b mod 16) * 16 + c div 4) # ((c mod 4) * 64 + d) # sextetsToBytes r"
| "sextetsToBytes [a, b, c] = [a * 4 + b div 16, (b mod 16) * 16 + c div 4]"
| "sextetsToBytes [a, b] = [a * 4 + b div 16]"
| "sextetsToBytes _ = []"

definition atob :: "js_string \<Rightarrow> error + js_string" where
  "atob data =
     (let d = stripPadding (filter (\<lambda>cu. \<not> isAsciiWhitespace cu) data)
      in if length d mod 4 = 1 then Inl InvalidCharacterError
         else (case those (map b64value d) of
                 None \<Rightarrow> Inl InvalidCharacterError
               | Some sextets \<Rightarrow> Inr (sextetsToBytes sextets)))"

text \<open>decodeBase64: \<open>bytes[i] = binaryString.charCodeAt(i)\<close> for every index; a store into a
  Uint8Array keeps the value modulo 256.\<close>

definition decodeBase64 :: "js_string \<Rightarrow> error + 8 word list" where
  "decodeBase64 base64 =
     (case atob base64 of
        Inl e \<Rightarrow> Inl e
      | Inr binaryString \<Rightarrow> Inr (map (\<lambda>cu. (of_nat cu :: 8 word)) binaryString))"

subsection \<open>Typed-array views and audio buffers\<close>

text \<open>\<open>new Int16Array(bytes.buffer)\<close>: a view over the whole buffer. The constructor raises
  RangeError when the buffer's byte length is not a multiple of the element size 2; the
  elements are read in the platform's byte order, little-endian.\<close>

fun int16s :: "8 word list \<Rightarrow> 16 word list" where
  "int16s (lo # hi # r) = (word_of_nat (unat lo + 256 * unat hi) :: 16 word) # int16s r"
| "int16s _ = []"

definition newInt16Array :: "8 word list \<Rightarrow> error + 16 word list" where
  "newInt16Array buffer =
     (if length buffer mod 2 \<noteq> 0 then Inl RangeError else Inr (int16s buffer))"

text \<open>The conversion of a Number to a Web IDL \<open>unsigned long\<close> (the frame-count arguments of
  createBuffer and of the OfflineAudioContext constructor): truncate towards zero, then
  reduce modulo \<open>2 ^ 32\<close>.\<close>

definition trunc :: "real \<Rightarrow> int" where
  "trunc x = (if x < 0 then \<lceil>x\<rceil> else \<lfloor>x\<rfloor>)"

definition toUnsignedLong :: "real \<Rightarrow> nat" where
  "toUnsignedLong x = nat (trunc x mod 2 ^ 32)"

text \<open>The rounding of a real to the nearest double, ties to even: 53 significant bits, the
  unit in the last place taken from the binary exponent of the argument. The exponent range
  of a double is not modelled; no value below comes near its ends.\<close>

definition roundTiesToEven :: "real \<Rightarrow> int" where
  "roundTiesToEven y =
     (let f = \<lfloor>y\<rfloor>; r = y - real_of_int f
      in if r < 1 / 2 then f
         else if r > 1 / 2 then f + 1
         else if even f then f else f + 1)"

definition fl :: "real \<Rightarrow> real" where
  "fl x =
     (if x = 0 then 0
      else (let e = \<lfloor>log 2 \<bar>x\<bar>\<rfloor>;
                ulp = 2 powr real_of_int (e - 52)
            in real_of_int (roundTiesToEven (x / ulp)) * ulp))"

record AudioBuffer =
  numberOfChannels :: nat
  bufLength :: nat
  sampleRate :: nat
  channelData :: "real list list"

definition duration :: "AudioBuffer \<Rightarrow> real" where
  "duration b = fl (real (bufLength b) / real (sampleRate b))"

text \<open>createBuffer raises NotSupportedError when the channel count or the frame count is
  zero; the new buffer is silent. (The host's upper limits on the channel count and its
  range of sample rates are not modelled: the callers here ask for 1 or 2 channels at
  24000 or 44100 Hz.)\<close>

text \<open>An Int16Array element as it is stored into the Float32Array: \<open>x / 32768.0\<close>.\<close>

definition int16ToFloat :: "16 word \<Rightarrow> real" where
  "int16ToFloat v = real_of_int (sint v) / 32768"

definition createBuffer :: "nat \<Rightarrow> real \<Rightarrow> nat \<Rightarrow> error + AudioBuffer" where
  "createBuffer numChannels len rate =
     (if numChannels = 0 \<or> toUnsignedLong len = 0 then Inl NotSupportedError
      else Inr \<lparr> numberOfChannels = numChannels, bufLength = toUnsignedLong len,
                 sampleRate = rate,
                 channelData = replicate numChannels (replicate (toUnsignedLong len) 0) \<rparr>)"

subsection \<open>decodeAudioData\<close>

text \<open>The inner loop \<open>for (let i = 0; i < frameCount; i++)\<close>. \<open>frameCount\<close> is the
  quotient \<open>dataInt16.length / numChannels\<close> as a Number, not rounded. A store beyond the
  end of a Float32Array is dropped; wherever the store is in range, so is the read of
  \<open>dataInt16\<close> (lemma \<open>frame_index_in_range\<close>).\<close>

function decodeChannelLoop ::
  "16 word list \<Rightarrow> nat \<Rightarrow> nat \<Rightarrow> real \<Rightarrow> nat \<Rightarrow> real list \<Rightarrow> real list" where
  "decodeChannelLoop dataInt16 numChannels channel frameCount i chan =
     (if real i < frameCount
      then decodeChannelLoop dataInt16 numChannels channel frameCount (Suc i)
             (if i < length chan
              then chan[i := int16ToFloat (dataInt16 ! (i * numChannels + channel))]
              else chan)
      else chan)"
  by pat_completeness auto
termination
  by (relation "measure (\<lambda>(d, n, c, frameCount, i, chan). nat \<lceil>frameCount\<rceil> - i)")
     (auto simp: zless_nat_eq_int_zless less_ceiling_iff intro!: diff_less_mono2)

text \<open>The outer loop \<open>for (let channel = 0; channel < numChannels; channel++)\<close>.\<close>

function decodeChannels ::
  "16 word list \<Rightarrow> nat \<Rightarrow> real \<Rightarrow> nat \<Rightarrow> real list list \<Rightarrow> real list list" where
  "decodeChannels dataInt16 numChannels frameCount channel chans =
     (if channel < numChannels
      then decodeChannels dataInt16 numChannels frameCount (Suc channel)
             (chans[channel := decodeChannelLoop dataInt16 numChannels channel frameCount 0
                                 (chans ! channel)])
      else chans)"
  by pat_completeness auto
termination
  by (relation "measure (\<lambda>(d, n, frameCount, channel, chans). n - channel)") auto

definition decodeAudioData :: "js_string \<Rightarrow> nat \<Rightarrow> nat \<Rightarrow> error + AudioBuffer" where
  "decodeAudioData base64Data rate numChannels =
     (case decodeBase64 base64Data of
        Inl e \<Rightarrow> Inl e
      | Inr bytes \<Rightarrow>
          (case newInt16Array bytes of
             Inl e \<Rightarrow> Inl e
           | Inr dataInt16 \<Rightarrow>
               (let frameCount = real (length dataInt16) / real numChannels
                in case createBuffer numChannels frameCount rate of
                     Inl e \<Rightarrow> Inl e
                   | Inr buffer \<Rightarrow>
                       Inr (buffer\<lparr> channelData :=
                              decodeChannels dataInt16 numChannels frameCount 0
                                (channelData buffer) \<rparr>))))"


subsection \<open>DataView stores\<close>

text \<open>A DataView over an ArrayBuffer is the list of its bytes. Every offset used below is
  inside the buffer (the header offsets are the literals 0 to 43, the samples start at 44 in
  a buffer of \<open>44 + 2 * samples\<close> bytes), so no store raises RangeError. Multi-byte values
  are stored little-endian (the \<open>true\<close> argument); an unsigned store keeps the value modulo
  \<open>2 ^ 16\<close> or \<open>2 ^ 32\<close>, and setInt16 truncates its Number towards zero and keeps the low
  16 bits.\<close>

definition setUint8 :: "8 word list \<Rightarrow> nat \<Rightarrow> nat \<Rightarrow> 8 word list" where
  "setUint8 view offset v = view[offset := of_nat v]"

definition setUint16 :: "8 word list \<Rightarrow> nat \<Rightarrow> nat \<Rightarrow> 8 word list" where
  "setUint16 view offset v =
     view[offset := of_nat (v mod 256), offset + 1 := of_nat (v div 256 mod 256)]"

definition setUint32 :: "8 word list \<Rightarrow> nat \<Rightarrow> nat \<Rightarrow> 8 word list" where
  "setUint32 view offset v =
     view[offset := of_nat (v mod 256), offset + 1 := of_nat (v div 256 mod 256),
          offset + 2 := of_nat (v div 65536 mod 256),
          offset + 3 := of_nat (v div 16777216 mod 256)]"

definition toInt16 :: "real \<Rightarrow> 16 word" where
  "toInt16 x = word_of_int (trunc x)"

definition setInt16 :: "8 word list \<Rightarrow> nat \<Rightarrow> real \<Rightarrow> 8 word list" where
  "setInt16 view offset x =
     view[offset := ucast (toInt16 x), offset + 1 := ucast (drop_bit 8 (toInt16 x))]"

fun writeString :: "8 word list \<Rightarrow> nat \<Rightarrow> js_string \<Rightarrow> 8 word list" where
  "writeString view offset [] = view"
| "writeString view offset (c # cs) = writeString (setUint8 view offset c) (offset + 1) cs"

subsection \<open>floatTo16BitPCM, interleave, encodeWAV, audioBufferToWav\<close>

fun floatTo16BitPCM :: "8 word list \<Rightarrow> nat \<Rightarrow> real list \<Rightarrow> 8 word list" where
  "floatTo16BitPCM output offset [] = output"
| "floatTo16BitPCM output offset (x # input) =
     (let s = max (- 1) (min 1 x)
      in floatTo16BitPCM (setInt16 output offset (if s < 0 then s * 32768 else s * 32767))
           (offset + 2) input)"

text \<open>The 16-bit value that floatTo16BitPCM stores for one sample.\<close>

definition pcm16 :: "real \<Rightarrow> 16 word" where
  "pcm16 x = (let s = max (- 1) (min 1 x) in toInt16 (if s < 0 then s * 32768 else s * 32767))"

text \<open>interleave: the two channels of an AudioBuffer have the same length, so both reads are
  in range in every round of the loop.\<close>

function interleaveLoop ::
  "real list \<Rightarrow> real list \<Rightarrow> nat \<Rightarrow> nat \<Rightarrow> nat \<Rightarrow> real list \<Rightarrow> real list" where
  "interleaveLoop inputL inputR len index inputIndex result =
     (if index < len
      then interleaveLoop inputL inputR len (index + 2) (inputIndex + 1)
             (result[index := inputL ! inputIndex, index + 1 := inputR ! inputIndex])
      else result)"
  by pat_completeness auto
termination
  by (relation "measure (\<lambda>(l, r, len, index, inputIndex, result). len - index)") auto

definition interleave :: "real list \<Rightarrow> real list \<Rightarrow> real list" where
  "interleave inputL inputR =
     (let len = length inputL + length inputR
      in interleaveLoop inputL inputR len 0 0 (replicate len 0))"

definition encodeWAV :: "real list \<Rightarrow> nat \<Rightarrow> nat \<Rightarrow> nat \<Rightarrow> 8 word list" where
  "encodeWAV samples numChannels rate bitDepth =
     (let bytesPerSample = bitDepth div 8;
          blockAlign = numChannels * bytesPerSample;
          view = replicate (44 + length samples * bytesPerSample) 0;
          view = writeString view 0 (js ''RIFF'');
          view = setUint32 view 4 (36 + length samples * bytesPerSample);
          view = writeString view 8 (js ''WAVE'');
          view = writeString view 12 (js ''fmt '');
          view = setUint32 view 16 16;
          view = setUint16 view 20 1;
          view = setUint16 view 22 numChannels;
          view = setUint32 view 24 rate;
          view = setUint32 view 28 (rate * blockAlign);
          view = setUint16 view 32 blockAlign;
          view = setUint16 view 34 bitDepth;
          view = writeString view 36 (js ''data'');
          view = setUint32 view 40 (length samples * bytesPerSample)
      in floatTo16BitPCM view 44 samples)"

definition audioBufferToWav :: "AudioBuffer \<Rightarrow> 8 word list" where
  "audioBufferToWav buffer =
     (let numChannels = numberOfChannels buffer;
          rate = sampleRate buffer;
          bitDepth = 16;
          result = (if numChannels = 2
                    then interleave (channelData buffer ! 0) (channelData buffer ! 1)
                    else channelData buffer ! 0)
      in encodeWAV result numChannels rate bitDepth)"

subsection \<open>createWavUrl\<close>

text \<open>The Blob is the 44-byte header followed by the decoded bytes, untouched; the object
  URL returned by the source is a handle for that Blob, which is what the model returns.\<close>

definition createWavUrl :: "js_string \<Rightarrow> nat \<Rightarrow> error + 8 word list" where
  "createWavUrl base64Data rate =
     (case decodeBase64 base64Data of
        Inl e \<Rightarrow> Inl e
      | Inr bytes \<Rightarrow>
          (let view = replicate 44 0;
               view = writeString view 0 (js ''RIFF'');
               view = setUint32 view 4 (36 + length bytes);
               view = writeString view 8 (js ''WAVE'');
               view = writeString view 12 (js ''fmt '');
               view = setUint32 view 16 16;
               view = setUint16 view 20 1;
               view = setUint16 view 22 1;
               view = setUint32 view 24 rate;
               view = setUint32 view 28 (rate * 2);
               view = setUint16 view 32 2;
               view = setUint16 view 34 16;
               view = writeString view 36 (js ''data'');
               view = setUint32 view 40 (length bytes)
           in Inr (view @ bytes)))"

text \<open>Reading a WAV file back: the little-endian length field at offset 40 and the data
  subchunk it delimits, which starts at offset 44.\<close>

definition getUint32 :: "8 word list \<Rightarrow> nat \<Rightarrow> nat" where
  "getUint32 view offset =
     unat (view ! offset) + 256 * unat (view ! (offset + 1)) +
     65536 * unat (view ! (offset + 2)) + 16777216 * unat (view ! (offset + 3))"

definition wavDataSubchunk :: "8 word list \<Rightarrow> 8 word list" where
  "wavDataSubchunk wav = take (getUint32 wav 40) (drop 44 wav)"


text \<open>The four little-endian bytes of a value stored with setUint32.\<close>

definition le32 :: "nat \<Rightarrow> 8 word list" where
  "le32 v = [of_nat (v mod 256), of_nat (v div 256 mod 256),
             of_nat (v div 65536 mod 256), of_nat (v div 16777216 mod 256)]"

subsection \<open>generateBackgroundTrack\<close>

datatype MusicStyle = NO_MUSIC | CALM | UPBEAT | FOCUS

text \<open>The remainder operator \<open>%\<close> on Numbers: the result has the sign of the dividend.\<close>

definition fmod :: "real \<Rightarrow> real \<Rightarrow> real" where
  "fmod a b = a - b * real_of_int (trunc (a / b))"

text \<open>The locals of the CALM branch. \<open>calm_mod\<close> is the source's \<open>mod\<close>.\<close>

definition calm_mod :: "real \<Rightarrow> real" where
  "calm_mod time = sin (time * 0.2) * 0.5 + 0.5"

definition calmSample :: "(nat \<Rightarrow> real) \<Rightarrow> nat \<Rightarrow> real \<Rightarrow> real \<times> real \<times> nat" where
  "calmSample rnd k time =
     (let f1 = 146.83;
          f2 = 220.00;
          sampleL = sin (2 * pi * f1 * time) * 0.1 * calm_mod time;
          sampleR = sin (2 * pi * f2 * time) * 0.1 * (1 - calm_mod time);
          sampleL = sampleL + (rnd k * 2 - 1) * 0.005;
          sampleR = sampleR + (rnd (k + 1) * 2 - 1) * 0.005
      in (sampleL, sampleR, k + 2))"

text \<open>The locals of the UPBEAT branch: \<open>bpm\<close>, \<open>beatLen\<close>, \<open>beatPos\<close>, \<open>kick\<close>, the test that
  guards \<open>hat\<close>, \<open>chord\<close> and \<open>gate\<close>. The three tests are the program's: the literals 0.1
  and 0.05 are the doubles nearest to them, \<open>Math.PI\<close> is the double nearest to \<open>pi\<close>, and
  the argument of the gate's sine is the rounded product; \<open>Math.sin\<close> is taken to return a
  value of the sign of the sine of its argument.\<close>

definition Math_PI :: real where
  "Math_PI = fl pi"

definition bpm :: real where
  "bpm = 120"

definition beatLen :: real where
  "beatLen = fl (60 / bpm)"

definition beatPos :: "real \<Rightarrow> real" where
  "beatPos time = fmod time beatLen"

definition kick :: "real \<Rightarrow> real" where
  "kick time =
     (if beatPos time < fl 0.1
      then sin (2 * pi * 60 * beatPos time) * exp (- 20 * beatPos time)
      else 0)"

definition hatActive :: "real \<Rightarrow> bool" where
  "hatActive time \<longleftrightarrow> fmod time (fl (beatLen / 2)) < fl 0.05"

definition chord :: "real \<Rightarrow> real" where
  "chord time = sin (2 * pi * 220 * time) + sin (2 * pi * 330 * time)"

definition gateArg :: "real \<Rightarrow> real" where
  "gateArg time = fl (fl (fl (2 * Math_PI) * fl (fl (bpm / 60) * 2)) * time)"

definition gate :: "real \<Rightarrow> real" where
  "gate time = (if sin (gateArg time) > 0 then 1 else 0)"

definition upbeatSample :: "(nat \<Rightarrow> real) \<Rightarrow> nat \<Rightarrow> real \<Rightarrow> real \<times> real \<times> nat" where
  "upbeatSample rnd k time =
     (let (hat, k') = (if hatActive time then ((rnd k * 2 - 1) * 0.1, k + 1) else (0, k));
          sampleL = kick time * 0.4 + hat + (chord time * 0.05 * gate time);
          sampleR = kick time * 0.4 + hat + (chord time * 0.05 * (1 - gate time))
      in (sampleL, sampleR, k'))"

definition focusSample :: "nat \<Rightarrow> real \<Rightarrow> real \<times> real \<times> nat" where
  "focusSample k time =
     (sin (2 * pi * 200 * time) * 0.1, sin (2 * pi * 204 * time) * 0.1, k)"

text \<open>The if-chain on the style inside the loop: the two samples before the envelope and
  the position in the random stream after the draws of this round.\<close>

definition synthSample ::
  "MusicStyle \<Rightarrow> (nat \<Rightarrow> real) \<Rightarrow> nat \<Rightarrow> real \<Rightarrow> real \<times> real \<times> nat" where
  "synthSample style rnd k time =
     (if style = CALM then calmSample rnd k time
      else if style = UPBEAT then upbeatSample rnd k time
      else if style = FOCUS then focusSample k time
      else (0, 0, k))"

text \<open>The fade: the second test overrides the first where both hold.\<close>

definition envelope :: "real \<Rightarrow> real \<Rightarrow> real" where
  "envelope dur time =
     (let env = 1;
          env = (if time < 0.5 then time / 0.5 else env);
          env = (if time > dur - 1.5 then (dur - time) / 1.5 else env)
      in max 0 env)"

function generateLoop ::
  "MusicStyle \<Rightarrow> (nat \<Rightarrow> real) \<Rightarrow> nat \<Rightarrow> real \<Rightarrow> nat \<Rightarrow> nat \<Rightarrow> nat \<Rightarrow> real list \<Rightarrow> real list
     \<Rightarrow> real list \<times> real list \<times> nat" where
  "generateLoop style rnd rate dur len i k L R =
     (if i < len
      then (let time = fl (real i / real rate);
                (sampleL, sampleR, k') = synthSample style rnd k time
            in generateLoop style rnd rate dur len (Suc i) k'
                 (L[i := sampleL * envelope dur time]) (R[i := sampleR * envelope dur time]))
      else (L, R, k))"
  by pat_completeness auto
termination
  by (relation "measure (\<lambda>(style, rnd, rate, dur, len, i, k, L, R). len - i)") auto

text \<open>generateBackgroundTrack, for a context of sample rate \<open>rate\<close>; \<open>k\<close> is the position in
  the random stream before the call, and the position after it is returned with the buffer.\<close>

definition generateBackgroundTrack ::
  "(nat \<Rightarrow> real) \<Rightarrow> nat \<Rightarrow> nat \<Rightarrow> MusicStyle \<Rightarrow> real \<Rightarrow> error + (AudioBuffer \<times> nat)" where
  "generateBackgroundTrack rnd k rate style dur =
     (case createBuffer 2 (fl (real rate * dur)) rate of
        Inl e \<Rightarrow> Inl e
      | Inr buffer \<Rightarrow>
          if style = NO_MUSIC then Inr (buffer, k)
          else (let (L, R, k') = generateLoop style rnd rate dur (bufLength buffer) 0 k
                                   (channelData buffer ! 0) (channelData buffer ! 1)
                in Inr (buffer\<lparr> channelData := [L, R] \<rparr>, k')))"

text \<open>Bookkeeping for the random stream: the number of draws one round of the loop makes,
  the number of draws made by the rounds \<open>i\<close> to \<open>j - 1\<close>, and the sample of a channel
  before the envelope at frame \<open>i\<close> of a track whose loop started at position \<open>k\<close>.\<close>

definition draws :: "MusicStyle \<Rightarrow> real \<Rightarrow> nat" where
  "draws style time =
     (if style = CALM then 2
      else if style = UPBEAT then (if hatActive time then 1 else 0)
      else 0)"

definition drawsBetween :: "MusicStyle \<Rightarrow> nat \<Rightarrow> nat \<Rightarrow> nat \<Rightarrow> nat" where
  "drawsBetween style rate i j = (\<Sum>m = i..<j. draws style (fl (real m / real rate)))"

definition preEnvelope ::
  "MusicStyle \<Rightarrow> (nat \<Rightarrow> real) \<Rightarrow> nat \<Rightarrow> nat \<Rightarrow> nat \<Rightarrow> nat \<Rightarrow> real" where
  "preEnvelope style rnd k rate c i =
     (let (sampleL, sampleR, k') =
            synthSample style rnd (k + drawsBetween style rate 0 i) (fl (real i / real rate))
      in if c = 0 then sampleL else sampleR)"

text \<open>The CALM modulator as the specification words it: a sinusoid of 0.2 Hz.\<close>

definition spec_calm_mod :: "real \<Rightarrow> real" where
  "spec_calm_mod time = sin (2 * pi * 0.2 * time) * 0.5 + 0.5"

subsection \<open>mixAudioWithMusic\<close>

record OfflineAudioContext =
  ctxNumberOfChannels :: nat
  ctxLength :: nat
  ctxSampleRate :: nat

text \<open>The OfflineAudioContext constructor raises NotSupportedError for a channel count or a
  frame count of zero.\<close>

definition newOfflineAudioContext :: "nat \<Rightarrow> real \<Rightarrow> nat \<Rightarrow> error + OfflineAudioContext" where
  "newOfflineAudioContext numChannels len rate =
     (if numChannels = 0 \<or> toUnsignedLong len = 0 then Inl NotSupportedError
      else Inr \<lparr> ctxNumberOfChannels = numChannels, ctxLength = toUnsignedLong len,
                 ctxSampleRate = rate \<rparr>)"

text \<open>startRendering for the graph built by mixAudioWithMusic: the voice source goes straight
  to the destination, the music source through a gain node. The rendered buffer has the
  channel count, length and sample rate of the context. How the host resamples the 24 kHz
  mono voice to the context's rate is the parameter \<open>resample\<close>: the voice sample at a
  frame of the rendering, the same on both channels.\<close>

definition startRendering ::
  "(AudioBuffer \<Rightarrow> nat \<Rightarrow> nat \<Rightarrow> real) \<Rightarrow> OfflineAudioContext \<Rightarrow> AudioBuffer \<Rightarrow> AudioBuffer \<Rightarrow> real
     \<Rightarrow> AudioBuffer" where
  "startRendering resample ctx voiceBuffer musicBuffer gain =
     \<lparr> numberOfChannels = ctxNumberOfChannels ctx, bufLength = ctxLength ctx,
       sampleRate = ctxSampleRate ctx,
       channelData =
         map (\<lambda>c. map (\<lambda>i. resample voiceBuffer (ctxSampleRate ctx) i
                              + gain * (channelData musicBuffer ! c ! i))
                    [0..<ctxLength ctx])
             [0..<ctxNumberOfChannels ctx] \<rparr>"

text \<open>Steps 1 to 6 of mixAudioWithMusic: everything up to the rendered buffer.\<close>

definition renderMix ::
  "(nat \<Rightarrow> real) \<Rightarrow> (AudioBuffer \<Rightarrow> nat \<Rightarrow> nat \<Rightarrow> real) \<Rightarrow> js_string \<Rightarrow> MusicStyle
     \<Rightarrow> error + AudioBuffer" where
  "renderMix rnd resample voiceBase64 musicStyle =
     (case newOfflineAudioContext 2 (fl (44100 * 1)) 44100 of
        Inl e \<Rightarrow> Inl e
      | Inr offlineCtx \<Rightarrow>
     (case decodeAudioData voiceBase64 24000 1 of
        Inl e \<Rightarrow> Inl e
      | Inr voiceBuffer \<Rightarrow>
     (let dur = duration voiceBuffer
      in case newOfflineAudioContext 2 (fl (dur * 44100)) 44100 of
        Inl e \<Rightarrow> Inl e
      | Inr renderCtx \<Rightarrow>
     (case generateBackgroundTrack rnd 0 (ctxSampleRate renderCtx) musicStyle dur of
        Inl e \<Rightarrow> Inl e
      | Inr (musicBuffer, k) \<Rightarrow>
          Inr (startRendering resample renderCtx voiceBuffer musicBuffer 0.6)))))"

text \<open>mixAudioWithMusic: the fast path for NO_MUSIC, else step 7 on the rendered buffer. The
  result is the content of the Blob behind the returned URL.\<close>

definition mixAudioWithMusic ::
  "(nat \<Rightarrow> real) \<Rightarrow> (AudioBuffer \<Rightarrow> nat \<Rightarrow> nat \<Rightarrow> real) \<Rightarrow> js_string \<Rightarrow> MusicStyle
     \<Rightarrow> error + 8 word list" where
  "mixAudioWithMusic rnd resample voiceBase64 musicStyle =
     (if musicStyle = NO_MUSIC then createWavUrl voiceBase64 24000
      else (case renderMix rnd resample voiceBase64 musicStyle of
              Inl e \<Rightarrow> Inl e
            | Inr renderedBuffer \<Rightarrow> Inr (audioBufferToWav renderedBuffer)))"


section \<open>Properties\<close>

subsection \<open>The download name\<close>

lemma replaceNonAlnum_length: "length (replaceNonAlnum title) = length title"
  by (simp add: replaceNonAlnum_def)

lemma safeTitle_nonempty:
  "title \<noteq> [] \<Longrightarrow> safeTitle title = toLowerCase (replaceNonAlnum title)"
  by (simp add: safeTitle_def toLowerCase_def replaceNonAlnum_def)

text \<open>
  C9 (as the code has it). With an audio URL present, the download name is the title with
  every code unit that is not an ASCII letter or digit replaced by an underscore (not
  removed), the letters lowercased, and \<open>.wav\<close> appended; the stem keeps the title's length,
  and the default \<open>daily_briefing\<close> is used exactly when the title is empty.
\<close>

theorem C9_download_name:
  assumes "url \<noteq> []"
  shows "handleDownload (Some url) title =
           Some ((if title = [] then js ''daily_briefing''
                  else map (\<lambda>cu. if isAlnum cu then (if 65 \<le> cu \<and> cu \<le> 90 then cu + 32 else cu)
                                  else 95) title) @ js ''.wav'')"
proof (cases "title = []")
  case True
  with assms show ?thesis
    by (simp add: handleDownload_def safeTitle_def toLowerCase_def replaceNonAlnum_def)
next
  case False
  have "toLowerCase (replaceNonAlnum title) =
          map (\<lambda>cu. if isAlnum cu then (if 65 \<le> cu \<and> cu \<le> 90 then cu + 32 else cu) else 95) title"
    by (simp add: toLowerCase_def replaceNonAlnum_def)
  with False assms show ?thesis
    by (simp add: handleDownload_def safeTitle_nonempty)
qed

theorem C9_download_name_witness:
  "js ''blob:x'' \<noteq> [] \<and>
   handleDownload (Some (js ''blob:x'')) (js ''Top 5: AI'') = Some (js ''top_5__ai.wav'')"
  using C9_download_name [of "js ''blob:x''" "js ''Top 5: AI''"]
  by (simp add: js_def isAlnum_def)

text \<open>
  C9 (as the specification words it) fails: for the title \<open>A B\<close> the code suggests
  \<open>a_b.wav\<close>, the specification's transform gives \<open>ab.wav\<close>.
\<close>

theorem C9_counterexample:
  "handleDownload (Some (js ''blob:x'')) (js ''A B'') = Some (js ''a_b.wav'') \<and>
   spec_downloadName (js ''A B'') = js ''ab.wav'' \<and>
   handleDownload (Some (js ''blob:x'')) (js ''A B'') \<noteq> Some (spec_downloadName (js ''A B''))"
  by (simp add: handleDownload_def safeTitle_def toLowerCase_def replaceNonAlnum_def
      spec_downloadName_def js_def isAlnum_def)

subsection \<open>The PCM decoder\<close>

declare decodeChannelLoop.simps [simp del] decodeChannels.simps [simp del]

lemma decodeChannelLoop_length:
  "length (decodeChannelLoop d n c f i chan) = length chan"
proof (induction d n c f i chan rule: decodeChannelLoop.induct)
  case (1 d n c f i chan)
  show ?case
  proof (cases "real i < f")
    case True
    with 1 show ?thesis by (subst decodeChannelLoop.simps) simp
  next
    case False
    then show ?thesis by (subst decodeChannelLoop.simps) simp
  qed
qed

lemma decodeChannelLoop_nth:
  "j < length chan \<Longrightarrow>
   decodeChannelLoop d n c f i chan ! j =
     (if i \<le> j \<and> real j < f then int16ToFloat (d ! (j * n + c)) else chan ! j)"
proof (induction d n c f i chan rule: decodeChannelLoop.induct)
  case (1 d n c f i chan)
  show ?case
  proof (cases "real i < f")
    case True
    let ?chan' = "if i < length chan then chan[i := int16ToFloat (d ! (i * n + c))] else chan"
    have len: "j < length ?chan'" using "1.prems" by simp
    have step: "decodeChannelLoop d n c f i chan = decodeChannelLoop d n c f (Suc i) ?chan'"
      using True by (subst decodeChannelLoop.simps) simp
    have IH: "decodeChannelLoop d n c f (Suc i) ?chan' ! j =
        (if Suc i \<le> j \<and> real j < f then int16ToFloat (d ! (j * n + c)) else ?chan' ! j)"
      using "1.IH" [OF True len] .
    show ?thesis
    proof (cases "i = j")
      case True
      show ?thesis unfolding step IH using True \<open>real i < f\<close> "1.prems" by simp
    next
      case False
      then show ?thesis using "1.prems" by (auto simp: step IH)
    qed
  next
    case False
    then have "decodeChannelLoop d n c f i chan = chan"
      by (subst decodeChannelLoop.simps) simp
    moreover have "\<not> (i \<le> j \<and> real j < f)" using False by auto
    ultimately show ?thesis by auto
  qed
qed

lemma decodeChannels_length:
  "length (decodeChannels d n f ch chans) = length chans"
proof (induction d n f ch chans rule: decodeChannels.induct)
  case (1 d n f ch chans)
  show ?case
  proof (cases "ch < n")
    case True
    with 1 show ?thesis by (subst decodeChannels.simps) simp
  next
    case False
    then show ?thesis by (subst decodeChannels.simps) simp
  qed
qed

lemma decodeChannels_nth:
  "c < length chans \<Longrightarrow>
   decodeChannels d n f ch chans ! c =
     (if ch \<le> c \<and> c < n then decodeChannelLoop d n c f 0 (chans ! c) else chans ! c)"
proof (induction d n f ch chans rule: decodeChannels.induct)
  case (1 d n f ch chans)
  show ?case
  proof (cases "ch < n")
    case True
    let ?chans' = "chans[ch := decodeChannelLoop d n ch f 0 (chans ! ch)]"
    have len: "c < length ?chans'" using "1.prems" by simp
    have step: "decodeChannels d n f ch chans = decodeChannels d n f (Suc ch) ?chans'"
      using True by (subst decodeChannels.simps) simp
    have IH: "decodeChannels d n f (Suc ch) ?chans' ! c =
       (if Suc ch \<le> c \<and> c < n then decodeChannelLoop d n c f 0 (?chans' ! c) else ?chans' ! c)"
      using "1.IH" [OF True len] .
    show ?thesis
    proof (cases "ch = c")
      case True
      show ?thesis unfolding step IH using True \<open>ch < n\<close> "1.prems" by simp
    next
      case False
      then show ?thesis using "1.prems" by (auto simp: step IH)
    qed
  next
    case False
    then have "decodeChannels d n f ch chans = chans"
      by (subst decodeChannels.simps) simp
    moreover have "\<not> (ch \<le> c \<and> c < n)" using False by auto
    ultimately show ?thesis by auto
  qed
qed

lemma int16s_length: "length (int16s bs) = length bs div 2"
  by (induction bs rule: int16s.induct) auto

lemma trunc_nonneg: "0 \<le> x \<Longrightarrow> trunc x = \<lfloor>x\<rfloor>"
  by (simp add: trunc_def)

lemma toUnsignedLong_frames:
  "toUnsignedLong (real m / real n) = (m div n) mod 2 ^ 32"
proof -
  have "trunc (real m / real n) = int (m div n)"
    by (simp add: trunc_nonneg floor_divide_of_nat_eq)
  moreover have "nat (int (m div n) mod 2 ^ 32) = (m div n) mod 2 ^ 32"
    by (simp add: nat_mod_distrib nat_power_eq)
  ultimately show ?thesis
    by (simp only: toUnsignedLong_def)
qed

lemma frame_index_in_range:
  assumes "i < (m div n) mod 2 ^ 32" "c < n"
  shows "i * n + c < m" "real i < real m / real n"
proof -
  have i: "i < m div n" using assms(1) by (meson less_le_trans mod_less_eq_dividend)
  then have "Suc i * n \<le> m"
    by (metis Suc_leI div_times_less_eq_dividend dual_order.trans mult_le_mono1)
  with assms(2) show "i * n + c < m" by simp
  then have "real (i * n) < real m" using assms(2) by linarith
  moreover have "0 < real n" using assms(2) by simp
  ultimately show "real i < real m / real n"
    by (simp add: pos_less_divide_eq)
qed


lemma decodeAudioData_Inr:
  assumes "decodeBase64 b = Inr bytes" "decodeAudioData b rate nc = Inr buf"
  shows "even (length bytes)" "nc \<noteq> 0"
    "buf = \<lparr> numberOfChannels = nc,
             bufLength = (length (int16s bytes) div nc) mod 2 ^ 32,
             sampleRate = rate,
             channelData = decodeChannels (int16s bytes) nc
                 (real (length (int16s bytes)) / real nc) 0
                 (replicate nc (replicate ((length (int16s bytes) div nc) mod 2 ^ 32) 0)) \<rparr>"
  using assms
  by (auto simp: decodeAudioData_def newInt16Array_def createBuffer_def toUnsignedLong_frames
      Let_def split: if_splits sum.splits)

lemma decoded_channel:
  assumes "c < nc"
  shows "decodeChannels d nc f 0 (replicate nc (replicate L 0)) ! c =
         decodeChannelLoop d nc c f 0 (replicate L 0)"
  using assms by (simp add: decodeChannels_nth)

text \<open>
  C3. Whenever decodeAudioData returns a buffer, the sample of channel \<open>c\<close> at frame \<open>i\<close> is
  the int16 at index \<open>i * numChannels + c\<close> of the interleaved input, divided by 32768; the
  index is inside the input. The scaling is asymmetric: \<open>-32768\<close> goes to \<open>-1\<close>, \<open>0\<close> to \<open>0\<close>
  and \<open>32767\<close> to \<open>32767 / 32768\<close>, below 1.
\<close>

theorem C3_decode_amplitude:
  assumes "decodeBase64 b = Inr bytes"
    and "decodeAudioData b rate nc = Inr buf"
    and "c < nc" and "i < bufLength buf"
  shows "i * nc + c < length (int16s bytes) \<and>
         channelData buf ! c ! i = real_of_int (sint (int16s bytes ! (i * nc + c))) / 32768 \<and>
         int16ToFloat (word_of_int (- 32768)) = - 1 \<and>
         int16ToFloat (word_of_int 0) = 0 \<and>
         int16ToFloat (word_of_int 32767) = 32767 / 32768"
proof -
  let ?d = "int16s bytes"
  let ?L = "(length ?d div nc) mod 2 ^ 32"
  let ?f = "real (length ?d) / real nc"
  note buf = decodeAudioData_Inr(3) [OF assms(1,2)]
  have L: "bufLength buf = ?L" by (subst buf) simp
  have iL: "i < ?L" using assms(4) L by simp
  have rng: "i * nc + c < length ?d" and fr: "real i < ?f"
    using frame_index_in_range [OF iL assms(3)] by simp_all
  have "channelData buf ! c = decodeChannelLoop ?d nc c ?f 0 (replicate ?L 0)"
    by (subst buf) (simp add: decoded_channel [OF assms(3)])
  then have "channelData buf ! c ! i = int16ToFloat (?d ! (i * nc + c))"
    using iL fr by (simp add: decodeChannelLoop_nth)
  moreover have "int16ToFloat (word_of_int (- 32768)) = - 1"
    "int16ToFloat (word_of_int 0) = 0"
    "int16ToFloat (word_of_int 32767) = 32767 / 32768"
    by (simp_all add: int16ToFloat_def)
  ultimately show ?thesis using rng by (simp add: int16ToFloat_def)
qed

lemma ex_bytes6: "decodeBase64 (js ''AID/fwAA'') = Inr [0, 128, 255, 127, 0, 0]"
  by (simp add: decodeBase64_def atob_def js_def stripPadding_def isAsciiWhitespace_def b64value_def)

lemma ex_bytes3: "decodeBase64 (js ''AID/'') = Inr [0, 128, 255]"
  by (simp add: decodeBase64_def atob_def js_def stripPadding_def isAsciiWhitespace_def b64value_def)

lemma ex_decode_mono: "decodeAudioData (js ''AID/fwAA'') 24000 1 =
   Inr \<lparr> numberOfChannels = 1, bufLength = 3, sampleRate = 24000,
         channelData = [[- 1, 32767 / 32768, 0]] \<rparr>"
  by (simp add: decodeAudioData_def ex_bytes6 newInt16Array_def createBuffer_def toUnsignedLong_def
      trunc_def decodeChannels.simps decodeChannelLoop.simps int16ToFloat_def numeral_3_eq_3)

theorem C3_decode_amplitude_witness:
  "decodeBase64 (js ''AID/fwAA'') = Inr [0, 128, 255, 127, 0, 0] \<and>
   decodeAudioData (js ''AID/fwAA'') 24000 1 =
     Inr \<lparr> numberOfChannels = 1, bufLength = 3, sampleRate = 24000,
           channelData = [[- 1, 32767 / 32768, 0]] \<rparr> \<and>
   (0::nat) < 1 \<and>
   (1::nat) < bufLength \<lparr> numberOfChannels = 1, bufLength = 3, sampleRate = 24000,
           channelData = [[- 1, 32767 / 32768, 0]] \<rparr> \<and>
   [[- 1, 32767 / 32768, 0 :: real]] ! 0 ! 1 =
     real_of_int (sint (int16s [0, 128, 255, 127, 0, 0] ! (1 * 1 + 0))) / 32768"
  using C3_decode_amplitude [OF ex_bytes6 ex_decode_mono, of 0 1] ex_bytes6 ex_decode_mono
  by simp

lemma decodeChannelLoop_map:
  assumes "\<And>i. i < L \<Longrightarrow> real i < f"
  shows "decodeChannelLoop d n c f 0 (replicate L 0) =
         map (\<lambda>i. int16ToFloat (d ! (i * n + c))) [0..<L]"
  by (rule nth_equalityI) (simp_all add: decodeChannelLoop_length decodeChannelLoop_nth assms)

text \<open>
  C4 (as the code has it). A decoded byte length that is odd makes decodeAudioData fail with
  RangeError, raised by the Int16Array constructor: nothing is truncated. With an even byte
  length, at least one whole frame and fewer than \<open>2 ^ 32\<close> frames, no error is raised, the
  frame count is the floor of samples over channels, and a trailing partial frame is dropped.
\<close>

theorem C4_decode_length:
  assumes "decodeBase64 b = Inr bytes"
  shows "(odd (length bytes) \<longrightarrow> decodeAudioData b rate nc = Inl RangeError) \<and>
         (even (length bytes) \<and> 0 < nc \<and> nc \<le> length bytes div 2 \<and> length bytes div 2 div nc < 2 ^ 32 \<longrightarrow>
            (\<exists>buf. decodeAudioData b rate nc = Inr buf \<and>
               numberOfChannels buf = nc \<and>
               bufLength buf = length bytes div 2 div nc \<and>
               length (channelData buf) = nc \<and>
               (\<forall>c<nc. channelData buf ! c =
                  map (\<lambda>i. int16ToFloat (int16s bytes ! (i * nc + c)))
                    [0..<length bytes div 2 div nc])))"
proof (intro conjI impI)
  assume "odd (length bytes)"
  then show "decodeAudioData b rate nc = Inl RangeError"
    using assms by (simp add: decodeAudioData_def newInt16Array_def odd_iff_mod_2_eq_one)
next
  assume h: "even (length bytes) \<and> 0 < nc \<and> nc \<le> length bytes div 2 \<and> length bytes div 2 div nc < 2 ^ 32"
  let ?d = "int16s bytes"
  let ?L = "length bytes div 2 div nc"
  let ?f = "real (length ?d) / real nc"
  have Lpos: "0 < ?L" using h by (simp add: div_greater_zero_iff)
  have Lmod: "(length ?d div nc) mod 2 ^ 32 = ?L" using h by (simp add: int16s_length)
  have UL: "toUnsignedLong ?f = ?L" by (simp only: toUnsignedLong_frames Lmod)
  let ?buf = "\<lparr> numberOfChannels = nc, bufLength = ?L, sampleRate = rate,
      channelData = decodeChannels ?d nc ?f 0 (replicate nc (replicate ?L 0)) \<rparr>"
  have dec: "decodeAudioData b rate nc = Inr ?buf"
    using assms h Lpos
    by (simp add: decodeAudioData_def newInt16Array_def createBuffer_def UL Let_def)
  have chan: "channelData ?buf ! c = map (\<lambda>i. int16ToFloat (?d ! (i * nc + c))) [0..<?L]"
    if "c < nc" for c
  proof -
    have "real i < ?f" if "i < ?L" for i
      using frame_index_in_range(2) [of i "length ?d" nc c] that \<open>c < nc\<close> Lmod by simp
    then show ?thesis
      using \<open>c < nc\<close> by (simp add: decoded_channel decodeChannelLoop_map)
  qed
  show "\<exists>buf. decodeAudioData b rate nc = Inr buf \<and>
               numberOfChannels buf = nc \<and>
               bufLength buf = length bytes div 2 div nc \<and>
               length (channelData buf) = nc \<and>
               (\<forall>c<nc. channelData buf ! c =
                  map (\<lambda>i. int16ToFloat (int16s bytes ! (i * nc + c)))
                    [0..<length bytes div 2 div nc])"
    using dec chan by (intro exI [of _ ?buf]) (simp add: decodeChannels_length)
qed

theorem C4_decode_length_witness:
  "decodeBase64 (js ''AID/'') = Inr [0, 128, 255] \<and>
   odd (length [0, 128, 255 :: 8 word]) \<and>
   decodeAudioData (js ''AID/'') 24000 1 = Inl RangeError \<and>
   decodeBase64 (js ''AID/fwAA'') = Inr [0, 128, 255, 127, 0, 0] \<and>
   even (length [0, 128, 255, 127, 0, 0 :: 8 word]) \<and> (0::nat) < 2 \<and>
   2 \<le> length [0, 128, 255, 127, 0, 0 :: 8 word] div 2 \<and>
   length [0, 128, 255, 127, 0, 0 :: 8 word] div 2 div 2 < 2 ^ 32 \<and>
   (\<exists>buf. decodeAudioData (js ''AID/fwAA'') 24000 2 = Inr buf \<and> bufLength buf = 1 \<and>
      channelData buf ! 0 = [- 1] \<and> channelData buf ! 1 = [32767 / 32768])"
proof -
  have odd3: "odd (length [0, 128, 255 :: 8 word])" by simp
  have six: "even (length [0, 128, 255, 127, 0, 0 :: 8 word]) \<and> (0::nat) < 2 \<and>
      2 \<le> length [0, 128, 255, 127, 0, 0 :: 8 word] div 2 \<and>
      length [0, 128, 255, 127, 0, 0 :: 8 word] div 2 div 2 < 2 ^ 32" by simp
  from C4_decode_length [OF ex_bytes3, where rate = 24000 and nc = 1] odd3
  have a: "decodeAudioData (js ''AID/'') 24000 1 = Inl RangeError" by blast
  from C4_decode_length [OF ex_bytes6, where rate = 24000 and nc = 2] six
  obtain buf where buf: "decodeAudioData (js ''AID/fwAA'') 24000 2 = Inr buf"
    "bufLength buf = length [0, 128, 255, 127, 0, 0 :: 8 word] div 2 div 2"
    "\<forall>c<2. channelData buf ! c =
        map (\<lambda>i. int16ToFloat (int16s [0, 128, 255, 127, 0, 0] ! (i * 2 + c)))
          [0..<length [0, 128, 255, 127, 0, 0 :: 8 word] div 2 div 2]"
    by blast
  have "channelData buf ! 0 = [- 1]" "channelData buf ! 1 = [32767 / 32768]"
    using buf(3) by (simp_all add: int16ToFloat_def)
  with buf(1,2) a ex_bytes3 ex_bytes6 odd3 six show ?thesis by simp
qed

text \<open>
  C4 (as the specification words it) fails: \<open>AID/\<close> decodes to three bytes, and decoding
  them as audio raises RangeError.
\<close>

theorem C4_counterexample:
  "decodeBase64 (js ''AID/'') = Inr [0, 128, 255] \<and>
   decodeAudioData (js ''AID/'') 24000 1 = Inl RangeError"
  by (simp add: ex_bytes3 decodeAudioData_def newInt16Array_def)

subsection \<open>The WAV encoder\<close>

lemma zeros44:
  "replicate 44 (0::8 word) =
     [0,0,0,0, 0,0,0,0, 0,0,0,0, 0,0,0,0, 0,0,0,0, 0,0,0,0, 0,0,0,0, 0,0,0,0,
      0,0,0,0, 0,0,0,0, 0,0,0,0]"
  by (simp add: eval_nat_numeral)

lemma createWavUrl_eq:
  assumes "decodeBase64 b = Inr bytes"
  shows "createWavUrl b rate =
     Inr ([82, 73, 70, 70] @ le32 (36 + length bytes) @
          [87, 65, 86, 69, 102, 109, 116, 32, 16, 0, 0, 0, 1, 0, 1, 0] @
          le32 rate @ le32 (rate * 2) @ [2, 0, 16, 0, 100, 97, 116, 97] @
          le32 (length bytes) @ bytes)"
  using assms
  by (simp add: createWavUrl_def zeros44 js_def setUint8_def setUint16_def setUint32_def
      le32_def Let_def)

lemma le32_length: "length (le32 v) = 4"
  by (simp add: le32_def)

lemma le32_value:
  "v mod 256 + 256 * (v div 256 mod 256) + 65536 * (v div 65536 mod 256)
     + 16777216 * (v div 16777216 mod 256) = v mod 2 ^ 32" for v :: nat
proof -
  have a: "v mod 65536 = 256 * (v div 256 mod 256) + v mod 256"
    using mod_mult2_eq [of v 256 256] by simp
  have b: "v mod 16777216 = 65536 * (v div 65536 mod 256) + v mod 65536"
    using mod_mult2_eq [of v 65536 256] by simp
  have c: "v mod 4294967296 = 16777216 * (v div 16777216 mod 256) + v mod 16777216"
    using mod_mult2_eq [of v 16777216 256] by simp
  show ?thesis using a b c by simp
qed

lemma getUint32_le32:
  "length pre = off \<Longrightarrow> getUint32 (pre @ le32 v @ post) off = v mod 2 ^ 32"
proof -
  assume "length pre = off"
  then have "getUint32 (pre @ le32 v @ post) off =
      v mod 256 + 256 * (v div 256 mod 256) + 65536 * (v div 65536 mod 256)
        + 16777216 * (v div 16777216 mod 256)"
    by (simp add: getUint32_def le32_def nth_append unat_of_nat)
  then show ?thesis by (simp only: le32_value)
qed


text \<open>
  C1. The no-music fast path is createWavUrl at 24000 Hz, and the file it builds is a
  44-byte header followed by the decoded bytes of the input, unchanged: the bytes from
  offset 44 on are the decoded bytes, the length field at offset 40 holds their number
  (modulo \<open>2 ^ 32\<close>, the width of the field), and for fewer than \<open>2 ^ 32\<close> bytes the data
  subchunk delimited by that field is exactly the decoded bytes. No sample goes through a
  float.
\<close>

theorem C1_fast_path_bit_exact:
  assumes "decodeBase64 b = Inr bytes"
  shows "mixAudioWithMusic rnd resample b NO_MUSIC = createWavUrl b 24000 \<and>
         (\<exists>wav. createWavUrl b rate = Inr wav \<and>
            length wav = 44 + length bytes \<and>
            drop 44 wav = bytes \<and>
            getUint32 wav 40 = length bytes mod 2 ^ 32 \<and>
            (length bytes < 2 ^ 32 \<longrightarrow> wavDataSubchunk wav = bytes))"
proof -
  let ?pre = "[82, 73, 70, 70] @ le32 (36 + length bytes) @
          [87, 65, 86, 69, 102, 109, 116, 32, 16, 0, 0, 0, 1, 0, 1, 0] @
          le32 rate @ le32 (rate * 2) @ [2, 0, 16, 0, 100, 97, 116, 97 :: 8 word]"
  let ?wav = "?pre @ le32 (length bytes) @ bytes"
  have wav: "createWavUrl b rate = Inr ?wav"
    using createWavUrl_eq [OF assms, of rate] by simp
  have pre: "length ?pre = 40" by (simp add: le32_length)
  have len: "length ?wav = 44 + length bytes" by (simp add: le32_length)
  have dr: "drop 44 ?wav = bytes" by (simp add: le32_length)
  have fld: "getUint32 ?wav 40 = length bytes mod 2 ^ 32"
    using getUint32_le32 [OF pre, of "length bytes" bytes] by simp
  have sub: "wavDataSubchunk ?wav = bytes" if "length bytes < 2 ^ 32"
    using that by (simp only: wavDataSubchunk_def fld dr) simp
  have "mixAudioWithMusic rnd resample b NO_MUSIC = createWavUrl b 24000"
    by (simp add: mixAudioWithMusic_def)
  with wav len dr fld sub show ?thesis by blast
qed

theorem C1_fast_path_bit_exact_witness:
  "decodeBase64 (js ''AID/fwAA'') = Inr [0, 128, 255, 127, 0, 0] \<and>
   mixAudioWithMusic (\<lambda>n. 0) (\<lambda>v r i. 0) (js ''AID/fwAA'') NO_MUSIC =
     createWavUrl (js ''AID/fwAA'') 24000 \<and>
   (\<exists>wav. createWavUrl (js ''AID/fwAA'') 24000 = Inr wav \<and>
      length wav = 50 \<and> drop 44 wav = [0, 128, 255, 127, 0, 0] \<and>
      length [0, 128, 255, 127, 0, 0 :: 8 word] < 2 ^ 32 \<and>
      wavDataSubchunk wav = [0, 128, 255, 127, 0, 0])"
proof -
  have small: "length [0, 128, 255, 127, 0, 0 :: 8 word] < 2 ^ 32" by simp
  from C1_fast_path_bit_exact [OF ex_bytes6, of "\<lambda>n. 0" "\<lambda>v r i. 0" 24000] small
  show ?thesis using ex_bytes6 by auto
qed



lemma int16_bytes_roundtrip:
  "(word_of_nat (unat (ucast w :: 8 word) + 256 * unat (ucast (drop_bit 8 w) :: 8 word)) :: 16 word) = w"
  for w :: "16 word"
proof -
  have a: "unat (ucast w :: 8 word) = unat w mod 256"
    by (simp add: unsigned_ucast_eq take_bit_eq_mod)
  have lt: "unat w < 65536" using unsigned_less [of w, where ?'a = nat] by simp
  have d: "unat (drop_bit 8 w) = unat w div 256"
    by (simp only: unat_drop_bit_eq) (simp add: drop_bit_eq_div)
  have "unat (ucast (drop_bit 8 w) :: 8 word) = unat (drop_bit 8 w) mod 256"
    by (simp only: unsigned_ucast_eq take_bit_eq_mod) simp
  also have "\<dots> = (unat w div 256) mod 256" by (simp only: d)
  also have "\<dots> = unat w div 256" using lt by simp
  finally have b: "unat (ucast (drop_bit 8 w) :: 8 word) = unat w div 256" .
  have c: "unat w mod 256 + 256 * (unat w div 256) = unat w" by simp
  show ?thesis by (simp only: a b c) simp
qed

lemma int16s_pairs:
  "int16s (concat (map (\<lambda>w. [ucast w, ucast (drop_bit 8 w)]) ws)) = ws"
proof (induction ws)
  case Nil
  show ?case by simp
next
  case (Cons w ws)
  have "int16s (concat (map (\<lambda>w. [ucast w, ucast (drop_bit 8 w)]) (w # ws))) =
        int16s (ucast w # ucast (drop_bit 8 w) #
                concat (map (\<lambda>w. [ucast w, ucast (drop_bit 8 w)]) ws))"
    by simp
  also have "\<dots> = w # int16s (concat (map (\<lambda>w. [ucast w, ucast (drop_bit 8 w)]) ws))"
    by (simp only: int16s.simps int16_bytes_roundtrip)
  finally show ?case by (simp only: Cons.IH)
qed

lemma setInt16_append:
  assumes "length pre = offset" "length rest \<ge> 2"
  shows "setInt16 (pre @ rest) offset x =
         pre @ [ucast (toInt16 x), ucast (drop_bit 8 (toInt16 x))] @ drop 2 rest"
proof -
  obtain a b r where rest: "rest = a # b # r"
    using assms(2) by (cases rest; cases "tl rest") auto
  show ?thesis using assms(1) by (simp add: setInt16_def rest list_update_append)
qed

lemma floatTo16BitPCM_append:
  "length pre = offset \<Longrightarrow> 2 * length xs \<le> length rest \<Longrightarrow>
   floatTo16BitPCM (pre @ rest) offset xs =
     pre @ concat (map (\<lambda>x. [ucast (pcm16 x), ucast (drop_bit 8 (pcm16 x))]) xs)
         @ drop (2 * length xs) rest"
proof (induction xs arbitrary: pre offset rest)
  case Nil
  then show ?case by simp
next
  case (Cons x xs)
  let ?v = "if max (- 1) (min 1 x) < 0 then max (- 1) (min 1 x) * 32768
            else max (- 1) (min 1 x) * 32767"
  let ?p = "[ucast (toInt16 ?v), ucast (drop_bit 8 (toInt16 ?v)) :: 8 word]"
  have r2: "2 \<le> length rest" using Cons.prems(2) by simp
  have st: "setInt16 (pre @ rest) offset ?v = (pre @ ?p) @ drop 2 rest"
    using setInt16_append [OF Cons.prems(1) r2, of ?v] by simp
  have l1: "length (pre @ ?p) = offset + 2" using Cons.prems(1) by simp
  have l2: "2 * length xs \<le> length (drop 2 rest)" using Cons.prems(2) by simp
  have pq: "pcm16 x = toInt16 ?v" by (simp add: pcm16_def Let_def)
  have "floatTo16BitPCM (pre @ rest) offset (x # xs) =
        floatTo16BitPCM ((pre @ ?p) @ drop 2 rest) (offset + 2) xs"
    by (simp only: floatTo16BitPCM.simps Let_def st)
  also have "\<dots> = (pre @ ?p) @ concat (map (\<lambda>x. [ucast (pcm16 x), ucast (drop_bit 8 (pcm16 x))]) xs)
         @ drop (2 * length xs) (drop 2 rest)"
    by (rule Cons.IH [OF l1 l2])
  finally show ?case by (simp add: pq add.commute)
qed

lemma floatTo16BitPCM_decode:
  "map int16ToFloat (int16s (floatTo16BitPCM (replicate (2 * length xs) 0) 0 xs)) =
   map (\<lambda>x. int16ToFloat (pcm16 x)) xs"
proof -
  have "floatTo16BitPCM ([] @ replicate (2 * length xs) 0) 0 xs =
      [] @ concat (map (\<lambda>x. [ucast (pcm16 x), ucast (drop_bit 8 (pcm16 x))]) xs)
         @ drop (2 * length xs) (replicate (2 * length xs) 0)"
    by (rule floatTo16BitPCM_append) simp_all
  then have "floatTo16BitPCM (replicate (2 * length xs) 0) 0 xs =
      concat (map (\<lambda>w. [ucast w, ucast (drop_bit 8 w)]) (map pcm16 xs))"
    by (simp add: comp_def)
  then show ?thesis by (simp only: int16s_pairs) (simp add: comp_def)
qed

lemma sint_toInt16:
  "- 32768 \<le> trunc x \<Longrightarrow> trunc x \<le> 32767 \<Longrightarrow> sint (toInt16 x) = trunc x"
  by (simp add: toInt16_def sint_sbintrunc' signed_take_bit_int_eq_self)

lemma pcm16_neg:
  assumes "- 1 \<le> s" "s < 0"
  shows "real_of_int (sint (pcm16 s)) = real_of_int \<lceil>s * 32768\<rceil>"
    and "- 32768 \<le> \<lceil>s * 32768\<rceil>" and "\<lceil>s * 32768\<rceil> \<le> 0"
proof -
  have m: "max (- 1) (min 1 s) = s" using assms by simp
  have neg: "s * 32768 < 0" using assms by simp
  have t: "trunc (s * 32768) = \<lceil>s * 32768\<rceil>" using neg by (simp add: trunc_def)
  have lo: "- 32768 \<le> \<lceil>s * 32768\<rceil>"
  proof -
    have "real_of_int (- 32768) \<le> s * 32768" using assms by simp
    then show ?thesis by (meson le_of_int_ceiling of_int_le_iff order_trans)
  qed
  have hi: "\<lceil>s * 32768\<rceil> \<le> 0" using neg by (simp add: ceiling_le_iff less_imp_le)
  have "sint (toInt16 (s * 32768)) = \<lceil>s * 32768\<rceil>"
    using sint_toInt16 [of "s * 32768"] t lo hi by simp
  then show "real_of_int (sint (pcm16 s)) = real_of_int \<lceil>s * 32768\<rceil>"
    using assms by (simp add: pcm16_def m Let_def)
  show "- 32768 \<le> \<lceil>s * 32768\<rceil>" by (rule lo)
  show "\<lceil>s * 32768\<rceil> \<le> 0" by (rule hi)
qed

lemma pcm16_pos:
  assumes "0 \<le> s" "s \<le> 1"
  shows "real_of_int (sint (pcm16 s)) = real_of_int \<lfloor>s * 32767\<rfloor>"
    and "0 \<le> \<lfloor>s * 32767\<rfloor>" and "\<lfloor>s * 32767\<rfloor> \<le> 32767"
proof -
  have m: "max (- 1) (min 1 s) = s" using assms by simp
  have nn: "0 \<le> s * 32767" using assms by simp
  have t: "trunc (s * 32767) = \<lfloor>s * 32767\<rfloor>" using nn by (simp add: trunc_def)
  have lo: "0 \<le> \<lfloor>s * 32767\<rfloor>" using nn by simp
  have hi: "\<lfloor>s * 32767\<rfloor> \<le> 32767"
  proof -
    have "s * 32767 \<le> real_of_int 32767" using assms by simp
    then show ?thesis by (metis floor_mono floor_of_int)
  qed
  have "sint (toInt16 (s * 32767)) = \<lfloor>s * 32767\<rfloor>"
    using sint_toInt16 [of "s * 32767"] t lo hi by simp
  then show "real_of_int (sint (pcm16 s)) = real_of_int \<lfloor>s * 32767\<rfloor>"
    using assms by (simp add: pcm16_def m Let_def)
  show "0 \<le> \<lfloor>s * 32767\<rfloor>" by (rule lo)
  show "\<lfloor>s * 32767\<rfloor> \<le> 32767" by (rule hi)
qed

lemma pcm16_error:
  assumes "- 1 \<le> s" "s \<le> 1"
  shows "(s < 0 \<longrightarrow> s \<le> int16ToFloat (pcm16 s) \<and> int16ToFloat (pcm16 s) - s < 1 / 32768) \<and>
         (0 \<le> s \<longrightarrow> int16ToFloat (pcm16 s) \<le> s \<and> s - int16ToFloat (pcm16 s) < (1 + s) / 32768)"
proof (intro conjI impI)
  assume neg: "s < 0"
  let ?k = "\<lceil>s * 32768\<rceil>"
  have d: "int16ToFloat (pcm16 s) = real_of_int ?k / 32768"
    using pcm16_neg(1) [OF assms(1) neg] by (simp add: int16ToFloat_def)
  have lo: "s * 32768 \<le> real_of_int ?k" by (rule le_of_int_ceiling)
  have hi: "real_of_int ?k < s * 32768 + 1"
    using ceiling_correct [of "s * 32768"] by simp
  show "s \<le> int16ToFloat (pcm16 s)" using lo by (simp add: d field_simps)
  have "real_of_int ?k - s * 32768 < 1" using hi by linarith
  then show "int16ToFloat (pcm16 s) - s < 1 / 32768" by (simp add: d field_simps)
next
  assume nn: "0 \<le> s"
  let ?k = "\<lfloor>s * 32767\<rfloor>"
  have d: "int16ToFloat (pcm16 s) = real_of_int ?k / 32768"
    using pcm16_pos(1) [OF nn assms(2)] by (simp add: int16ToFloat_def)
  have hi: "real_of_int ?k \<le> s * 32767" by (rule of_int_floor_le)
  have lo: "s * 32767 < real_of_int ?k + 1"
    using floor_correct [of "s * 32767"] by simp
  have "real_of_int ?k \<le> s * 32768" using hi nn by linarith
  then show "int16ToFloat (pcm16 s) \<le> s" by (simp add: d)
  have "s * 32768 - real_of_int ?k < 1 + s" using lo by linarith
  then show "s - int16ToFloat (pcm16 s) < (1 + s) / 32768" by (simp add: d field_simps)
qed

text \<open>
  C2 (as the code has it). For samples in \<open>[-1, 1]\<close> the encoder stores, little-endian, the
  int16 obtained by truncating \<open>s * 32768\<close> (negative \<open>s\<close>) or \<open>s * 32767\<close> (otherwise)
  towards zero, and decoding that int16 gives a value \<open>d\<close> with \<open>0 \<le> d - s < 1 / 32768\<close> for
  negative \<open>s\<close> and \<open>0 \<le> s - d < (1 + s) / 32768\<close> otherwise: the error stays below two
  quantisation steps, not one.
\<close>

theorem C2_quantisation_error:
  assumes "\<forall>s\<in>set xs. - 1 \<le> s \<and> s \<le> 1" and "i < length xs"
  shows "let s = xs ! i;
             d = map int16ToFloat (int16s (floatTo16BitPCM (replicate (2 * length xs) 0) 0 xs)) ! i
         in d = real_of_int (trunc (if s < 0 then s * 32768 else s * 32767)) / 32768 \<and>
            (s < 0 \<longrightarrow> s \<le> d \<and> d - s < 1 / 32768) \<and>
            (0 \<le> s \<longrightarrow> d \<le> s \<and> s - d < (1 + s) / 32768) \<and>
            \<bar>d - s\<bar> < 2 / 32768"
proof -
  let ?s = "xs ! i"
  let ?d = "int16ToFloat (pcm16 ?s)"
  have rng: "- 1 \<le> ?s" "?s \<le> 1" using assms by simp_all
  have dec: "map int16ToFloat (int16s (floatTo16BitPCM (replicate (2 * length xs) 0) 0 xs)) ! i = ?d"
    using assms(2) by (simp add: floatTo16BitPCM_decode)
  have val: "?d = real_of_int (trunc (if ?s < 0 then ?s * 32768 else ?s * 32767)) / 32768"
  proof (cases "?s < 0")
    case True
    then have "trunc (?s * 32768) = \<lceil>?s * 32768\<rceil>" by (simp add: trunc_def)
    with True pcm16_neg(1) [OF rng(1) True] show ?thesis by (simp add: int16ToFloat_def)
  next
    case False
    then have nn: "0 \<le> ?s" by simp
    then have "trunc (?s * 32767) = \<lfloor>?s * 32767\<rfloor>" by (simp add: trunc_def)
    with False pcm16_pos(1) [OF nn rng(2)] show ?thesis by (simp add: int16ToFloat_def)
  qed
  note err = pcm16_error [OF rng]
  have abs: "\<bar>?d - ?s\<bar> < 2 / 32768"
  proof (cases "?s < 0")
    case True
    with err show ?thesis by auto
  next
    case False
    with err rng(2) show ?thesis by auto
  qed
  show ?thesis unfolding Let_def dec using val err abs by blast
qed

theorem C2_quantisation_error_witness:
  "- 1 \<le> (65535 / 65536 :: real) \<and> (65535 / 65536 :: real) \<le> 1 \<and>
   - 1 \<le> (- 1 / 3 :: real) \<and> (- 1 / 3 :: real) \<le> 1 \<and>
   (0::nat) < length [65535 / 65536, - 1 / 3 :: real] \<and>
   map int16ToFloat (int16s (floatTo16BitPCM
       (replicate (2 * length [65535 / 65536, - 1 / 3 :: real]) 0) 0
       [65535 / 65536, - 1 / 3])) ! 0 \<le> 65535 / 65536 \<and>
   \<bar>map int16ToFloat (int16s (floatTo16BitPCM
       (replicate (2 * length [65535 / 65536, - 1 / 3 :: real]) 0) 0
       [65535 / 65536, - 1 / 3])) ! 0 - 65535 / 65536\<bar> < 2 / 32768"
proof -
  have h1: "\<forall>s\<in>set [65535 / 65536, - 1 / 3 :: real]. - 1 \<le> s \<and> s \<le> 1" by simp
  have h2: "(0::nat) < length [65535 / 65536, - 1 / 3 :: real]" by simp
  from C2_quantisation_error [OF h1 h2] show ?thesis
    unfolding Let_def by simp
qed

lemma floor_example: "\<lfloor>(65535 / 65536 :: real) * 32767\<rfloor> = 32766"
  by (rule floor_unique) simp_all

text \<open>
  C2 (as the specification words it) fails: the sample \<open>65535 / 65536\<close> is encoded as 32766
  and decoded as \<open>32766 / 32768\<close>, one and a half steps below the sample.
\<close>

theorem C2_counterexample:
  "- 1 \<le> (65535 / 65536 :: real) \<and> (65535 / 65536 :: real) \<le> 1 \<and>
   map int16ToFloat (int16s (floatTo16BitPCM (replicate 2 0) 0 [65535 / 65536])) ! 0
     = 32766 / 32768 \<and>
   \<not> \<bar>map int16ToFloat (int16s (floatTo16BitPCM (replicate 2 0) 0 [65535 / 65536])) ! 0
        - 65535 / 65536\<bar> \<le> 1 / 32768"
proof -
  have "map int16ToFloat (int16s (floatTo16BitPCM (replicate (2 * length [65535 / 65536 :: real]) 0) 0
          [65535 / 65536])) = map (\<lambda>x. int16ToFloat (pcm16 x)) [65535 / 65536]"
    by (rule floatTo16BitPCM_decode)
  then have "map int16ToFloat (int16s (floatTo16BitPCM (replicate 2 0) 0 [65535 / 65536])) ! 0
      = int16ToFloat (pcm16 (65535 / 65536))"
    by simp
  moreover have "int16ToFloat (pcm16 (65535 / 65536)) = 32766 / 32768"
    using pcm16_pos(1) [of "65535 / 65536"] by (simp add: int16ToFloat_def floor_example)
  ultimately show ?thesis by simp
qed

subsection \<open>Rounding to a double\<close>

lemma roundTiesToEven_error: "\<bar>real_of_int (roundTiesToEven y) - y\<bar> \<le> 1 / 2"
proof -
  have "real_of_int \<lfloor>y\<rfloor> \<le> y" "y < real_of_int \<lfloor>y\<rfloor> + 1"
    using floor_correct [of y] by simp_all
  then show ?thesis
    by (auto simp: roundTiesToEven_def Let_def abs_le_iff)
qed

lemma roundTiesToEven_int: "roundTiesToEven (real_of_int z) = z"
  by (simp add: roundTiesToEven_def)

lemma fl_zero: "fl 0 = 0"
  by (simp add: fl_def)

text \<open>Evaluating \<open>fl\<close> once the binary exponent of the argument is known.\<close>

lemma fl_eqI:
  assumes "x \<noteq> 0" "2 powr real_of_int e \<le> \<bar>x\<bar>" "\<bar>x\<bar> < 2 powr real_of_int (e + 1)"
  shows "fl x = real_of_int (roundTiesToEven (x / 2 powr real_of_int (e - 52)))
                  * 2 powr real_of_int (e - 52)"
proof -
  have "\<lfloor>log 2 \<bar>x\<bar>\<rfloor> = e"
    using assms by (subst floor_log_eq_powr_iff) simp_all
  then show ?thesis using assms(1) by (simp add: fl_def Let_def)
qed

text \<open>The relative error of one rounding is at most \<open>2 ^ - 53\<close>.\<close>

lemma fl_error: "\<bar>fl x - x\<bar> \<le> \<bar>x\<bar> / 2 ^ 53"
proof (cases "x = 0")
  case True
  then show ?thesis by (simp add: fl_zero)
next
  case False
  define e where "e = \<lfloor>log 2 \<bar>x\<bar>\<rfloor>"
  define u where "u = 2 powr real_of_int (e - 52)"
  have upos: "0 < u" by (simp add: u_def)
  have lo: "2 powr real_of_int e \<le> \<bar>x\<bar>"
  proof -
    have "real_of_int e \<le> log 2 \<bar>x\<bar>" by (simp add: e_def)
    then show ?thesis using False by (simp add: le_log_iff)
  qed
  have fx: "fl x = real_of_int (roundTiesToEven (x / u)) * u"
    using False by (simp add: fl_def Let_def e_def u_def)
  have "\<bar>fl x - x\<bar> = \<bar>real_of_int (roundTiesToEven (x / u)) - x / u\<bar> * u"
  proof -
    have "fl x - x = (real_of_int (roundTiesToEven (x / u)) - x / u) * u"
      using upos by (simp add: fx field_simps)
    then show ?thesis using upos by (simp add: abs_mult)
  qed
  also have "\<dots> \<le> (1 / 2) * u"
    using roundTiesToEven_error [of "x / u"] upos by (intro mult_right_mono) simp_all
  also have "(1 / 2) * u = 2 powr real_of_int e / 2 ^ 53"
  proof -
    have "u = 2 powr real_of_int e * 2 powr (- 52)"
      by (simp add: u_def flip: powr_add)
    also have "2 powr (- 52 :: real) = 1 / 2 ^ 52" by (simp add: powr_neg_numeral)
    finally show ?thesis by simp
  qed
  also have "\<dots> \<le> \<bar>x\<bar> / 2 ^ 53" using lo by (simp add: divide_right_mono)
  finally show ?thesis .
qed

text \<open>A number with at most 53 significant bits is a double: rounding leaves it alone.\<close>

lemma fl_exact:
  assumes "\<bar>m\<bar> < 2 ^ 53"
  shows "fl (real_of_int m * 2 powr real_of_int k) = real_of_int m * 2 powr real_of_int k"
proof (cases "m = 0")
  case True
  then show ?thesis by (simp add: fl_zero)
next
  case False
  let ?x = "real_of_int m * 2 powr real_of_int k"
  define j where "j = \<lfloor>log 2 \<bar>real_of_int m\<bar>\<rfloor>"
  have m1: "1 \<le> \<bar>real_of_int m\<bar>"
    using False by (simp flip: of_int_abs add: Ints_nonzero_abs_ge1)
  have mpos: "0 < \<bar>real_of_int m\<bar>" using m1 by linarith
  have "log 2 \<bar>real_of_int m\<bar> < 53"
  proof -
    have "\<bar>real_of_int m\<bar> < 2 ^ 53"
      using assms by (simp flip: of_int_abs add: of_int_less_numeral_power_cancel_iff)
    then have "\<bar>real_of_int m\<bar> < 2 powr 53" by simp
    then show ?thesis using mpos by (simp add: log_less_iff)
  qed
  then have j52: "j \<le> 52" by (simp add: j_def floor_le_iff)
  have xnz: "?x \<noteq> 0" using False by simp
  have ax: "\<bar>?x\<bar> = \<bar>real_of_int m\<bar> * 2 powr real_of_int k" by (simp add: abs_mult)
  have lg: "log 2 \<bar>?x\<bar> = log 2 \<bar>real_of_int m\<bar> + real_of_int k"
    using mpos by (simp add: ax log_mult)
  have e: "\<lfloor>log 2 \<bar>?x\<bar>\<rfloor> = j + k" by (simp add: lg j_def)
  define n where "n = nat (52 - j)"
  have n: "real_of_int (52 - j) = real n" using j52 by (simp add: n_def)
  have y: "?x / 2 powr real_of_int (j + k - 52) = real_of_int (m * 2 ^ n)"
  proof -
    have "2 powr real_of_int k / 2 powr real_of_int (j + k - 52) = 2 powr real_of_int (52 - j)"
      by (simp flip: powr_diff)
    also have "\<dots> = 2 ^ n" by (simp only: n) (simp add: powr_realpow)
    finally have "2 powr real_of_int k / 2 powr real_of_int (j + k - 52) = 2 ^ n" .
    then have "?x / 2 powr real_of_int (j + k - 52) = real_of_int m * 2 ^ n"
      by (metis times_divide_eq_right)
    then show ?thesis by simp
  qed
  have "fl ?x = real_of_int (roundTiesToEven (?x / 2 powr real_of_int (j + k - 52)))
                  * 2 powr real_of_int (j + k - 52)"
    using xnz by (simp only: fl_def Let_def e) simp
  also have "\<dots> = real_of_int (m * 2 ^ n) * 2 powr real_of_int (j + k - 52)"
    by (simp only: y roundTiesToEven_int)
  also have "\<dots> = ?x / 2 powr real_of_int (j + k - 52) * 2 powr real_of_int (j + k - 52)"
    by (simp only: y)
  also have "\<dots> = ?x" by simp
  finally show ?thesis .
qed

lemma fl_int: "\<bar>m\<bar> < 2 ^ 53 \<Longrightarrow> fl (real_of_int m) = real_of_int m"
  using fl_exact [of m 0] by simp

lemma fl_bounds:
  assumes "0 \<le> x"
  shows "x - x / 2 ^ 53 \<le> fl x" and "fl x \<le> x + x / 2 ^ 53"
proof -
  define c :: real where "c = x / 2 ^ 53"
  have "\<bar>fl x - x\<bar> \<le> \<bar>x\<bar> / 2 ^ 53" by (rule fl_error)
  moreover have "\<bar>x\<bar> = x" using assms by simp
  ultimately have "\<bar>fl x - x\<bar> \<le> c" by (simp add: c_def)
  then have "x - c \<le> fl x" "fl x \<le> x + c" by linarith+
  then show "x - x / 2 ^ 53 \<le> fl x" and "fl x \<le> x + x / 2 ^ 53"
    by (simp_all only: c_def)
qed

lemma fl_nonneg: "0 \<le> x \<Longrightarrow> 0 \<le> fl x"
proof -
  assume x: "0 \<le> x"
  have "x / 2 ^ 53 \<le> x" using x by (simp add: field_simps)
  then show ?thesis using fl_bounds(1) [OF x] by linarith
qed

lemma fl_pos: "0 < x \<Longrightarrow> 0 < fl x"
proof -
  assume x: "0 < x"
  have "x / 2 ^ 53 < x" using x by (simp add: field_simps)
  then show ?thesis using fl_bounds(1) [of x] x by linarith
qed

subsection \<open>The background track and the mix\<close>


declare generateLoop.simps [simp del]

lemma synthSample_counter:
  "snd (snd (synthSample style rnd k time)) = k + draws style time"
  by (simp add: synthSample_def calmSample_def upbeatSample_def focusSample_def draws_def Let_def)

lemma drawsBetween_same: "drawsBetween style rate i i = 0"
  by (simp add: drawsBetween_def)

lemma drawsBetween_step:
  "i < j \<Longrightarrow> draws style (fl (real i / real rate)) + drawsBetween style rate (Suc i) j =
               drawsBetween style rate i j"
  by (simp add: drawsBetween_def sum.atLeast_Suc_lessThan)

lemma drawsBetween_Suc:
  "i \<le> j \<Longrightarrow> drawsBetween style rate i (Suc j) =
               drawsBetween style rate i j + draws style (fl (real j / real rate))"
  by (simp add: drawsBetween_def)

lemma generateLoop_step:
  "i < len \<Longrightarrow>
   generateLoop style rnd rate dur len i k L R =
     generateLoop style rnd rate dur len (Suc i) (k + draws style (fl (real i / real rate)))
       (L[i := fst (synthSample style rnd k (fl (real i / real rate))) * envelope dur (fl (real i / real rate))])
       (R[i := fst (snd (synthSample style rnd k (fl (real i / real rate)))) * envelope dur (fl (real i / real rate))])"
  by (subst generateLoop.simps)
     (simp add: Let_def split_beta synthSample_counter)

lemma generateLoop_stop:
  "\<not> i < len \<Longrightarrow> generateLoop style rnd rate dur len i k L R = (L, R, k)"
  by (subst generateLoop.simps) simp

lemma generateLoop_lengths:
  "length (fst (generateLoop style rnd rate dur len i k L R)) = length L \<and>
   length (fst (snd (generateLoop style rnd rate dur len i k L R))) = length R"
proof (induction style rnd rate dur len i k L R rule: generateLoop.induct)
  case (1 style rnd rate dur len i k L R)
  show ?case
  proof (cases "i < len")
    case True
    obtain sL sR k' where s: "synthSample style rnd k (fl (real i / real rate)) = (sL, sR, k')"
      by (cases "synthSample style rnd k (fl (real i / real rate))") auto
    have k': "k' = k + draws style (fl (real i / real rate))"
      using synthSample_counter [of style rnd k "fl (real i / real rate)"] s by simp
    from "1.IH" [OF True refl s [symmetric] refl] show ?thesis
      by (simp add: generateLoop_step [OF True] s k')
  next
    case False
    then show ?thesis by (simp add: generateLoop_stop)
  qed
qed

lemma generateLoop_nth:
  assumes "j < length L" "j < length R"
  shows "fst (generateLoop style rnd rate dur len i k L R) ! j =
           (if i \<le> j \<and> j < len
            then fst (synthSample style rnd (k + drawsBetween style rate i j) (fl (real j / real rate)))
                   * envelope dur (fl (real j / real rate))
            else L ! j) \<and>
         fst (snd (generateLoop style rnd rate dur len i k L R)) ! j =
           (if i \<le> j \<and> j < len
            then fst (snd (synthSample style rnd (k + drawsBetween style rate i j) (fl (real j / real rate))))
                   * envelope dur (fl (real j / real rate))
            else R ! j)"
  using assms
proof (induction style rnd rate dur len i k L R rule: generateLoop.induct)
  case (1 style rnd rate dur len i k L R)
  show ?case
  proof (cases "i < len")
    case True
    let ?t = "fl (real i / real rate)"
    obtain sL sR k' where s: "synthSample style rnd k ?t = (sL, sR, k')"
      by (cases "synthSample style rnd k ?t") auto
    have k': "k' = k + draws style ?t"
      using synthSample_counter [of style rnd k ?t] s by simp
    let ?L' = "L[i := sL * envelope dur ?t]"
    let ?R' = "R[i := sR * envelope dur ?t]"
    have step: "generateLoop style rnd rate dur len i k L R =
                generateLoop style rnd rate dur len (Suc i) k' ?L' ?R'"
      by (simp add: generateLoop_step [OF True] s k')
    have IH: "fst (generateLoop style rnd rate dur len (Suc i) k' ?L' ?R') ! j =
           (if Suc i \<le> j \<and> j < len
            then fst (synthSample style rnd (k' + drawsBetween style rate (Suc i) j) (fl (real j / real rate)))
                   * envelope dur (fl (real j / real rate))
            else ?L' ! j) \<and>
         fst (snd (generateLoop style rnd rate dur len (Suc i) k' ?L' ?R')) ! j =
           (if Suc i \<le> j \<and> j < len
            then fst (snd (synthSample style rnd (k' + drawsBetween style rate (Suc i) j) (fl (real j / real rate))))
                   * envelope dur (fl (real j / real rate))
            else ?R' ! j)"
      using "1.IH" [OF True refl s [symmetric] refl] "1.prems" by simp
    consider (lt) "j < i" | (eq) "j = i" | (gt) "i < j" by linarith
    then show ?thesis
    proof cases
      case lt
      then show ?thesis unfolding step using IH by simp
    next
      case eq
      then show ?thesis unfolding step using IH True "1.prems" s
        by (simp add: drawsBetween_same)
    next
      case gt
      have "k' + drawsBetween style rate (Suc i) j = k + drawsBetween style rate i j"
        using drawsBetween_step [OF gt, of style rate] k' by simp
      then show ?thesis unfolding step using IH gt by simp
    qed
  next
    case False
    then show ?thesis by (simp add: generateLoop_stop)
  qed
qed

lemma generateLoop_counter:
  "snd (snd (generateLoop style rnd rate dur len i k L R)) =
     k + drawsBetween style rate i len"
proof (induction style rnd rate dur len i k L R rule: generateLoop.induct)
  case (1 style rnd rate dur len i k L R)
  show ?case
  proof (cases "i < len")
    case True
    let ?t = "fl (real i / real rate)"
    obtain sL sR k' where s: "synthSample style rnd k ?t = (sL, sR, k')"
      by (cases "synthSample style rnd k ?t") auto
    have k': "k' = k + draws style ?t"
      using synthSample_counter [of style rnd k ?t] s by simp
    from "1.IH" [OF True refl s [symmetric] refl] drawsBetween_step [OF True, of style rate]
    show ?thesis
      by (simp add: generateLoop_step [OF True] s k')
  next
    case False
    then show ?thesis by (simp add: generateLoop_stop drawsBetween_def)
  qed
qed


lemma createBuffer_Inr:
  assumes "createBuffer n len rate = Inr buffer"
  shows "n \<noteq> 0" "0 < toUnsignedLong len"
    "buffer = \<lparr> numberOfChannels = n, bufLength = toUnsignedLong len, sampleRate = rate,
                channelData = replicate n (replicate (toUnsignedLong len) 0) \<rparr>"
  using assms by (auto simp: createBuffer_def split: if_splits)

lemma generateBackgroundTrack_Inr:
  assumes "generateBackgroundTrack rnd k rate style dur = Inr (buf, k')"
  shows "bufLength buf = toUnsignedLong (fl (real rate * dur))"
    and "0 < bufLength buf"
    and "numberOfChannels buf = 2" and "sampleRate buf = rate"
    and "length (channelData buf) = 2"
    and "c < 2 \<Longrightarrow> length (channelData buf ! c) = bufLength buf"
    and "c < 2 \<Longrightarrow> i < bufLength buf \<Longrightarrow>
         channelData buf ! c ! i =
           preEnvelope style rnd k rate c i * envelope dur (fl (real i / real rate))"
    and "k' = k + drawsBetween style rate 0 (bufLength buf)"
proof -
  let ?n = "toUnsignedLong (fl (real rate * dur))"
  let ?z = "replicate ?n (0::real)"
  obtain buffer where cb: "createBuffer 2 (fl (real rate * dur)) rate = Inr buffer"
    using assms by (auto simp: generateBackgroundTrack_def split: sum.splits)
  note b = createBuffer_Inr [OF cb]
  have chans: "channelData buffer ! 0 = ?z" "channelData buffer ! 1 = ?z"
    "channelData buffer ! Suc 0 = ?z"
    by (subst b(3), simp add: numeral_2_eq_2)+
  have blen: "bufLength buffer = ?n" by (subst b(3)) simp
  let ?g = "generateLoop style rnd rate dur ?n 0 k ?z ?z"
  have res: "buf = (if style = NO_MUSIC then buffer
                    else buffer\<lparr> channelData := [fst ?g, fst (snd ?g)] \<rparr>)"
       "k' = (if style = NO_MUSIC then k else snd (snd ?g))"
    using assms by (auto simp: generateBackgroundTrack_def cb chans blen split_beta Let_def
        split: if_splits)
  have fields: "numberOfChannels buffer = 2" "sampleRate buffer = rate"
    "channelData buffer = [?z, ?z]"
    by (subst b(3), simp add: numeral_2_eq_2)+
  show L: "bufLength buf = ?n" using res(1) blen by simp
  show "0 < bufLength buf" using L b(2) by simp
  show "numberOfChannels buf = 2" using res(1) fields by simp
  show "sampleRate buf = rate" using res(1) fields by simp
  show "length (channelData buf) = 2" using res(1) fields by simp
  have zero: "preEnvelope NO_MUSIC rnd k rate c i = 0" for c i
    by (simp add: preEnvelope_def synthSample_def)
  have dz: "drawsBetween NO_MUSIC rate 0 n = 0" for n
    by (simp add: drawsBetween_def draws_def)
  show "length (channelData buf ! c) = bufLength buf" if "c < 2"
  proof -
    from that have "c = 0 \<or> c = 1" by auto
    then show ?thesis
      unfolding L using res(1) fields by (auto simp: generateLoop_lengths)
  qed
  show "channelData buf ! c ! i = preEnvelope style rnd k rate c i * envelope dur (fl (real i / real rate))"
    if "c < 2" "i < bufLength buf"
  proof (cases "style = NO_MUSIC")
    case True
    from that have "c = 0 \<or> c = 1" by auto
    moreover have "i < ?n" using that L by simp
    ultimately show ?thesis
      using res(1) fields by (auto simp: True zero)
  next
    case False
    have i: "i < ?n" using that L by simp
    then have iz: "i < length ?z" by simp
    note nth = generateLoop_nth [OF iz iz, of style rnd rate dur ?n 0 k]
    from that have "c = 0 \<or> c = 1" by auto
    then show ?thesis
    proof
      assume "c = 0"
      then show ?thesis
        using nth i False res(1) by (simp add: preEnvelope_def split_beta)
    next
      assume "c = 1"
      then show ?thesis
        using nth i False res(1) by (simp add: preEnvelope_def split_beta)
    qed
  qed
  show "k' = k + drawsBetween style rate 0 (bufLength buf)"
    unfolding L using res(2) by (simp add: generateLoop_counter dz)
qed

lemma generateBackgroundTrack_total:
  assumes "0 < toUnsignedLong (fl (real rate * dur))"
  shows "\<exists>buf k'. generateBackgroundTrack rnd k rate style dur = Inr (buf, k')"
  using assms
  by (simp add: generateBackgroundTrack_def createBuffer_def split_beta Let_def)

lemma envelope_bounds: "0 \<le> envelope dur time \<and> envelope dur time \<le> 1"
  by (simp add: envelope_def Let_def)



lemma focus_pre_bound: "\<bar>preEnvelope FOCUS rnd k rate c i\<bar> \<le> 0.1"
proof -
  have "\<bar>sin x * (1 / 10)\<bar> \<le> 1 / 10" for x :: real
    using abs_sin_le_one [of x] by (simp add: abs_mult)
  then show ?thesis
    by (simp add: preEnvelope_def synthSample_def focusSample_def)
qed

text \<open>
  C10. The envelope lies in \<open>[0, 1]\<close> for every duration and every time. Every sample of a
  generated track is its pre-envelope sample times the envelope at its time, so its
  absolute value is at most that of the pre-envelope sample; for FOCUS it is at most 0.1.
\<close>

theorem C10_envelope_bounds:
  assumes "generateBackgroundTrack rnd k rate style dur = Inr (buf, k')"
    and "c < 2" and "i < bufLength buf"
  shows "0 \<le> envelope d t \<and> envelope d t \<le> 1 \<and>
         channelData buf ! c ! i =
           preEnvelope style rnd k rate c i * envelope dur (fl (real i / real rate)) \<and>
         \<bar>channelData buf ! c ! i\<bar> \<le> \<bar>preEnvelope style rnd k rate c i\<bar> \<and>
         (style = FOCUS \<longrightarrow> \<bar>channelData buf ! c ! i\<bar> \<le> 0.1)"
proof -
  let ?p = "preEnvelope style rnd k rate c i"
  let ?e = "envelope dur (fl (real i / real rate))"
  have v: "channelData buf ! c ! i = ?p * ?e"
    by (rule generateBackgroundTrack_Inr(7) [OF assms])
  have e: "0 \<le> ?e" "?e \<le> 1" using envelope_bounds [of dur "fl (real i / real rate)"] by simp_all
  have "\<bar>?p * ?e\<bar> = \<bar>?p\<bar> * ?e" using e(1) by (simp add: abs_mult)
  also have "\<dots> \<le> \<bar>?p\<bar> * 1" using e(2) by (intro mult_left_mono) simp_all
  finally have le: "\<bar>channelData buf ! c ! i\<bar> \<le> \<bar>?p\<bar>" by (simp add: v)
  have "\<bar>channelData buf ! c ! i\<bar> \<le> 0.1" if "style = FOCUS"
    using le focus_pre_bound [of rnd k rate c i] that by simp
  with v le envelope_bounds [of d t] show ?thesis by blast
qed

lemma frames_3s: "toUnsignedLong (fl (real 44100 * 3)) = 132300"
  using fl_int [of 132300] by (simp add: toUnsignedLong_def trunc_def)

theorem C10_envelope_bounds_witness:
  "\<exists>buf k'. generateBackgroundTrack (\<lambda>n. 0) 0 44100 FOCUS 3 = Inr (buf, k') \<and>
      (0::nat) < 2 \<and> 22050 < bufLength buf \<and>
      0 \<le> envelope 3 (1 / 2) \<and> envelope 3 (1 / 2) \<le> 1 \<and>
      \<bar>channelData buf ! 0 ! 22050\<bar> \<le> 0.1"
proof -
  obtain buf k' where g: "generateBackgroundTrack (\<lambda>n. 0) 0 44100 FOCUS 3 = Inr (buf, k')"
    using generateBackgroundTrack_total [of 44100 3 "\<lambda>n. 0" 0 FOCUS] frames_3s by auto
  have len: "22050 < bufLength buf"
    using generateBackgroundTrack_Inr(1) [OF g] frames_3s by simp
  have c: "(0::nat) < 2" by simp
  from C10_envelope_bounds [OF g c len, of 3 "1 / 2"] g len show ?thesis by auto
qed

lemma envelope_long_track:
  assumes "2 \<le> dur" "0 \<le> t" "t \<le> dur"
  shows "envelope dur t =
           (if t < 0.5 then t / 0.5 else if t > dur - 1.5 then (dur - t) / 1.5 else 1)"
    and "envelope dur 0 = 0" and "envelope dur dur = 0"
  using assms by (auto simp: envelope_def Let_def max_def)

lemma frames_1s: "toUnsignedLong (fl (real 44100 * 1)) = 44100"
  using fl_int [of 44100] by (simp add: toUnsignedLong_def trunc_def)

text \<open>
  C6 on a short track. For a duration below 1.5 s the fade-out test already holds at time 0
  and overrides the fade-in: with duration 1 the envelope starts at \<open>2 / 3\<close>, and the first
  CALM sample (noise draw 0 on both channels) is \<open>- 1 / 300\<close>, not 0. For a duration between
  1.5 s and 2 s the envelope falls inside the first half second (duration 1.6: from
  \<open>14 / 15\<close> at 0.2 s to \<open>4 / 5\<close> at 0.4 s). Lemma \<open>envelope_long_track\<close> gives the shape the
  claim describes for durations of at least 2 s.
\<close>

theorem C6_short_track_no_fade_in:
  "envelope 1 0 = 2 / 3 \<and>
   envelope (8 / 5) (1 / 5) = 14 / 15 \<and> envelope (8 / 5) (2 / 5) = 4 / 5 \<and>
   (\<exists>buf k'. generateBackgroundTrack (\<lambda>n. 0) 0 44100 CALM 1 = Inr (buf, k') \<and>
      channelData buf ! 0 ! 0 = - (1 / 300) \<and> channelData buf ! 1 ! 0 = - (1 / 300))"
proof -
  have e: "envelope 1 0 = 2 / 3" by (simp add: envelope_def Let_def)
  have e2: "envelope (8 / 5) (1 / 5) = 14 / 15" "envelope (8 / 5) (2 / 5) = 4 / 5"
    by (simp_all add: envelope_def Let_def)
  obtain buf k' where g: "generateBackgroundTrack (\<lambda>n. 0) 0 44100 CALM 1 = Inr (buf, k')"
    using generateBackgroundTrack_total [of 44100 1 "\<lambda>n. 0" 0 CALM] frames_1s by auto
  have len: "0 < bufLength buf" by (rule generateBackgroundTrack_Inr(2) [OF g])
  have p: "preEnvelope CALM (\<lambda>n. 0) 0 44100 c 0 = - (1 / 200)" for c
    by (simp add: preEnvelope_def synthSample_def calmSample_def drawsBetween_def Let_def
        fl_zero)
  have "channelData buf ! 0 ! 0 = - (1 / 300)"
    using generateBackgroundTrack_Inr(7) [OF g _ len, of 0] p e by (simp add: fl_zero)
  moreover have "channelData buf ! 1 ! 0 = - (1 / 300)"
    using generateBackgroundTrack_Inr(7) [OF g _ len, of 1] p e by (simp add: fl_zero)
  ultimately show ?thesis using e e2 g by blast
qed



lemma drawsBetween_CALM: "drawsBetween CALM rate 0 i = 2 * i"
  by (simp add: drawsBetween_def draws_def)

lemma calm_mod_bounds: "0 \<le> calm_mod t \<and> calm_mod t \<le> 1"
proof -
  have "- 1 \<le> sin (t * 0.2)" "sin (t * 0.2) \<le> 1" by simp_all
  then show ?thesis unfolding calm_mod_def by linarith
qed

lemma calm_mod_period: "calm_mod (t + 10 * pi) = calm_mod t"
proof -
  have "(t + 10 * pi) * 0.2 = t * 0.2 + 2 * pi" by (simp add: algebra_simps)
  then show ?thesis by (simp only: calm_mod_def sin_periodic)
qed

lemma noise_bound:
  fixes r a :: real
  assumes "0 \<le> r" "r < 1"
  shows "\<bar>(r * 2 - 1) * a\<bar> \<le> \<bar>a\<bar>"
proof -
  have "\<bar>r * 2 - 1\<bar> \<le> 1" using assms by (simp add: abs_le_iff)
  then have "\<bar>r * 2 - 1\<bar> * \<bar>a\<bar> \<le> 1 * \<bar>a\<bar>" by (intro mult_right_mono) simp_all
  then show ?thesis by (simp add: abs_mult)
qed

text \<open>
  C7 (as the code has it). In a CALM track the left sample is the 146.83 Hz sine times
  \<open>0.1 * mod\<close> and the right sample the 220 Hz sine times \<open>0.1 * (1 - mod)\<close>, each plus its
  own noise draw \<open>(random * 2 - 1) * 0.005\<close> of absolute value at most 0.005, all times the
  envelope. The modulator is \<open>mod = sin (0.2 * t) * 0.5 + 0.5\<close>, in \<open>[0, 1]\<close>, of period
  \<open>10 * pi\<close> seconds (0.2 radians per second, not 0.2 Hz): as it rises the left channel gets
  more of tone 1 and the right channel less of tone 2.
\<close>

theorem C7_calm_samples:
  assumes "generateBackgroundTrack rnd k rate CALM dur = Inr (buf, k')"
    and "i < bufLength buf"
    and "\<forall>n. 0 \<le> rnd n \<and> rnd n < 1"
  shows "let t = fl (real i / real rate);
             m = calm_mod t;
             noiseL = (rnd (k + 2 * i) * 2 - 1) * 0.005;
             noiseR = (rnd (k + 2 * i + 1) * 2 - 1) * 0.005
         in channelData buf ! 0 ! i = (sin (2 * pi * 146.83 * t) * 0.1 * m + noiseL) * envelope dur t \<and>
            channelData buf ! 1 ! i = (sin (2 * pi * 220 * t) * 0.1 * (1 - m) + noiseR) * envelope dur t \<and>
            m = sin (t * 0.2) * 0.5 + 0.5 \<and> 0 \<le> m \<and> m \<le> 1 \<and>
            calm_mod (t + 10 * pi) = m \<and>
            \<bar>noiseL\<bar> \<le> 0.005 \<and> \<bar>noiseR\<bar> \<le> 0.005"
proof -
  let ?t = "fl (real i / real rate)"
  have pL: "preEnvelope CALM rnd k rate 0 i =
      sin (2 * pi * 146.83 * ?t) * 0.1 * calm_mod ?t + (rnd (k + 2 * i) * 2 - 1) * 0.005"
    by (simp add: preEnvelope_def synthSample_def calmSample_def drawsBetween_CALM Let_def)
  have pR: "preEnvelope CALM rnd k rate 1 i =
      sin (2 * pi * 220 * ?t) * 0.1 * (1 - calm_mod ?t) + (rnd (k + 2 * i + 1) * 2 - 1) * 0.005"
    by (simp add: preEnvelope_def synthSample_def calmSample_def drawsBetween_CALM Let_def)
  have L: "channelData buf ! 0 ! i =
      (sin (2 * pi * 146.83 * ?t) * 0.1 * calm_mod ?t + (rnd (k + 2 * i) * 2 - 1) * 0.005)
        * envelope dur ?t"
    using generateBackgroundTrack_Inr(7) [OF assms(1) _ assms(2), of 0] by (simp only: pL)
  have R: "channelData buf ! 1 ! i =
      (sin (2 * pi * 220 * ?t) * 0.1 * (1 - calm_mod ?t) + (rnd (k + 2 * i + 1) * 2 - 1) * 0.005)
        * envelope dur ?t"
    using generateBackgroundTrack_Inr(7) [OF assms(1) _ assms(2), of 1] by (simp only: pR)
  have nL: "\<bar>(rnd (k + 2 * i) * 2 - 1) * 0.005\<bar> \<le> 0.005"
    using noise_bound [of "rnd (k + 2 * i)" "0.005"] assms(3) by simp
  have nR: "\<bar>(rnd (k + 2 * i + 1) * 2 - 1) * 0.005\<bar> \<le> 0.005"
    using noise_bound [of "rnd (k + 2 * i + 1)" "0.005"] assms(3) by simp
  show ?thesis
    unfolding Let_def
    using L R nL nR calm_mod_bounds [of ?t] calm_mod_period [of ?t]
    by (simp add: calm_mod_def)
qed

theorem C7_calm_samples_witness:
  "\<exists>buf k'. generateBackgroundTrack (\<lambda>n. 1 / 2) 0 44100 CALM 3 = Inr (buf, k') \<and>
      55125 < bufLength buf \<and>
      (\<forall>n. (0::real) \<le> 1 / 2 \<and> (1 / 2 :: real) < 1) \<and>
      channelData buf ! 0 ! 55125 = sin (2 * pi * 146.83 * (5 / 4)) * 0.1 * calm_mod (5 / 4) \<and>
      channelData buf ! 1 ! 55125 = sin (2 * pi * 220 * (5 / 4)) * 0.1 * (1 - calm_mod (5 / 4))"
proof -
  obtain buf k' where g: "generateBackgroundTrack (\<lambda>n. 1 / 2) 0 44100 CALM 3 = Inr (buf, k')"
    using generateBackgroundTrack_total [of 44100 3 "\<lambda>n. 1 / 2" 0 CALM] frames_3s by auto
  have len: "55125 < bufLength buf"
    using generateBackgroundTrack_Inr(1) [OF g] frames_3s by simp
  have r: "\<forall>n::nat. (0::real) \<le> 1 / 2 \<and> (1 / 2 :: real) < 1" by simp
  have t: "fl (real 55125 / real 44100) = 5 / 4"
    using fl_exact [of 5 "- 2"] by (simp add: powr_neg_numeral)
  have e: "envelope 3 (5 / 4) = 1" by (simp add: envelope_def Let_def)
  from C7_calm_samples [OF g len r] have
    "channelData buf ! 0 ! 55125 = sin (2 * pi * 146.83 * (5 / 4)) * 0.1 * calm_mod (5 / 4)"
    "channelData buf ! 1 ! 55125 = sin (2 * pi * 220 * (5 / 4)) * 0.1 * (1 - calm_mod (5 / 4))"
    unfolding Let_def t e by simp_all
  with g len show ?thesis by auto
qed

text \<open>
  C7 (as the specification words it) fails: at 1.25 s a 0.2 Hz modulator is at its peak 1,
  the code's modulator is at most \<open>5 / 8\<close>.
\<close>

theorem C7_counterexample:
  "spec_calm_mod (5 / 4) = 1 \<and> calm_mod (5 / 4) \<le> 5 / 8 \<and>
   calm_mod (5 / 4) \<noteq> spec_calm_mod (5 / 4)"
proof -
  have "2 * pi * 0.2 * (5 / 4) = pi / 2" by simp
  then have s: "spec_calm_mod (5 / 4) = 1" by (simp only: spec_calm_mod_def sin_pi_half)
  have "sin (1 / 4 :: real) \<le> 1 / 4" by (rule sin_x_le_x) simp
  moreover have "(5 / 4 :: real) * 0.2 = 1 / 4" by simp
  ultimately have c: "calm_mod (5 / 4) \<le> 5 / 8" by (simp only: calm_mod_def)
  from s c show ?thesis by simp
qed





lemma fmod_nonneg:
  assumes "0 \<le> t" "0 < b"
  shows "fmod t b = t - b * real_of_int \<lfloor>t / b\<rfloor>" and "0 \<le> fmod t b" and "fmod t b < b"
proof -
  have q: "0 \<le> t / b" using assms by simp
  then show eq: "fmod t b = t - b * real_of_int \<lfloor>t / b\<rfloor>"
    by (simp add: fmod_def trunc_def)
  have lo: "real_of_int \<lfloor>t / b\<rfloor> \<le> t / b" by (rule of_int_floor_le)
  have hi: "t / b < real_of_int \<lfloor>t / b\<rfloor> + 1" using floor_correct [of "t / b"] by simp
  have "b * real_of_int \<lfloor>t / b\<rfloor> \<le> b * (t / b)"
    using lo assms(2) by (intro mult_left_mono) simp_all
  then have "b * real_of_int \<lfloor>t / b\<rfloor> \<le> t" using assms(2) by simp
  then show "0 \<le> fmod t b" by (simp add: eq)
  have "b * (t / b) < b * (real_of_int \<lfloor>t / b\<rfloor> + 1)"
    using hi assms(2) by (intro mult_strict_left_mono) simp_all
  then have "t < b * real_of_int \<lfloor>t / b\<rfloor> + b" using assms(2) by (simp add: algebra_simps)
  then show "fmod t b < b" by (simp add: eq)
qed

lemma fmod_small: "0 \<le> t \<Longrightarrow> t < b \<Longrightarrow> fmod t b = t"
proof -
  assume t: "0 \<le> t" "t < b"
  then have b: "0 < b" by linarith
  have "0 \<le> t / b" "t / b < 1" using t b by simp_all
  then have "\<lfloor>t / b\<rfloor> = 0" by (simp add: floor_eq_iff)
  then show ?thesis using fmod_nonneg(1) [OF t(1) b] by simp
qed

lemma fl_two: "fl 2 = 2" using fl_int [of 2] by simp
lemma fl_four: "fl 4 = 4" using fl_int [of 4] by simp
lemma fl_half: "fl (1 / 2) = 1 / 2" using fl_exact [of 1 "- 1"] by (simp add: powr_neg_one)
lemma fl_quarter: "fl (1 / 4) = 1 / 4" using fl_exact [of 1 "- 2"] by (simp add: powr_neg_numeral)

lemma beatLen_half: "beatLen = 1 / 2"
  by (simp add: beatLen_def bpm_def fl_half)

lemma half_beat: "fl (beatLen / 2) = 1 / 4"
  by (simp add: beatLen_half fl_quarter)

lemma hatActive_eq: "hatActive time \<longleftrightarrow> fmod time (1 / 4) < fl 0.05"
  by (simp add: hatActive_def half_beat)

text \<open>The literals of the two window tests are within one part in \<open>2 ^ 53\<close> of 0.1 and 0.05.\<close>

lemma literal_tenth: "\<bar>fl 0.1 - 0.1\<bar> \<le> 0.1 / 2 ^ 53"
  using fl_error [of "0.1"] by simp

lemma literal_twentieth: "\<bar>fl 0.05 - 0.05\<bar> \<le> 0.05 / 2 ^ 53"
  using fl_error [of "0.05"] by simp

text \<open>The argument of the gate's sine: four roundings away from \<open>2 * pi * 4 * time\<close>.\<close>

lemma fl_lower: "0 \<le> lo \<Longrightarrow> lo \<le> x \<Longrightarrow> lo * (1 - 1 / 2 ^ 53) \<le> fl x"
proof -
  assume lo: "0 \<le> lo" "lo \<le> x"
  have "lo * (1 - 1 / 2 ^ 53) \<le> x * (1 - 1 / 2 ^ 53)"
    using lo by (intro mult_right_mono) simp_all
  also have "\<dots> = x - x / 2 ^ 53" by (simp add: algebra_simps)
  also have "\<dots> \<le> fl x" using lo by (intro fl_bounds(1)) simp
  finally show ?thesis .
qed

lemma fl_upper: "0 \<le> x \<Longrightarrow> x \<le> hi \<Longrightarrow> fl x \<le> hi * (1 + 1 / 2 ^ 53)"
proof -
  assume x: "0 \<le> x" "x \<le> hi"
  have "fl x \<le> x + x / 2 ^ 53" using x by (intro fl_bounds(2))
  also have "\<dots> = x * (1 + 1 / 2 ^ 53)" by (simp add: algebra_simps)
  also have "\<dots> \<le> hi * (1 + 1 / 2 ^ 53)" using x by (intro mult_right_mono) simp_all
  finally show ?thesis .
qed

lemma gateArg_bounds:
  assumes "0 \<le> t"
  shows "\<bar>gateArg t - 2 * pi * 4 * t\<bar> \<le> 2 * pi * 4 * t / 2 ^ 50"
proof -
  define q :: real where "q = 1 - 1 / 2 ^ 53"
  define p :: real where "p = 1 + 1 / 2 ^ 53"
  have q0: "0 \<le> q" and p0: "0 \<le> p" by (simp_all add: q_def p_def)
  have q4: "1 - 1 / 2 ^ 50 \<le> q * q * q * q" by (simp add: q_def)
  have p4: "p * p * p * p \<le> 1 + 1 / 2 ^ 50" by (simp add: p_def)
  have four: "fl (fl (bpm / 60) * 2) = 4" by (simp add: bpm_def fl_two fl_four)
  let ?a1 = "fl pi"
  let ?a2 = "fl (2 * ?a1)"
  let ?a3 = "fl (?a2 * 4)"
  let ?a4 = "fl (?a3 * t)"
  have g: "gateArg t = ?a4" by (simp add: gateArg_def Math_PI_def four)
  have l1: "pi * q \<le> ?a1" unfolding q_def by (rule fl_lower) simp_all
  have a1: "0 \<le> ?a1" by (rule fl_nonneg) simp
  have l2: "2 * (pi * q) * q \<le> ?a2" unfolding q_def
    by (rule fl_lower) (use l1 q0 in \<open>simp_all add: q_def\<close>)
  have a2: "0 \<le> ?a2" by (rule fl_nonneg) (use a1 in simp)
  have l3: "2 * (pi * q) * q * 4 * q \<le> ?a3" unfolding q_def
    by (rule fl_lower) (use l2 q0 in \<open>simp_all add: q_def\<close>)
  have a3: "0 \<le> ?a3" by (rule fl_nonneg) (use a2 in simp)
  have "2 * (pi * q) * q * 4 * q * t \<le> ?a3 * t"
    using l3 assms by (intro mult_right_mono)
  moreover have "0 \<le> 2 * (pi * q) * q * 4 * q * t" using q0 assms by simp
  ultimately have l4: "2 * (pi * q) * q * 4 * q * t * q \<le> ?a4" unfolding q_def
    by (intro fl_lower)
  have u1: "?a1 \<le> pi * p" unfolding p_def by (rule fl_upper) simp_all
  have u2: "?a2 \<le> 2 * (pi * p) * p" unfolding p_def
    by (rule fl_upper) (use u1 a1 in \<open>simp_all add: p_def\<close>)
  have u3: "?a3 \<le> 2 * (pi * p) * p * 4 * p" unfolding p_def
    by (rule fl_upper) (use u2 a2 in \<open>simp_all add: p_def\<close>)
  have "?a3 * t \<le> 2 * (pi * p) * p * 4 * p * t"
    using u3 assms by (intro mult_right_mono)
  moreover have "0 \<le> ?a3 * t" using a3 assms by simp
  ultimately have u4: "?a4 \<le> 2 * (pi * p) * p * 4 * p * t * p" unfolding p_def
    by (intro fl_upper)
  define c where "c = 2 * pi * 4 * t"
  have c0: "0 \<le> c" using assms by (simp add: c_def)
  have "c * (1 - 1 / 2 ^ 50) \<le> c * (q * q * q * q)"
    using q4 c0 by (intro mult_left_mono)
  also have "\<dots> = 2 * (pi * q) * q * 4 * q * t * q" by (simp add: c_def)
  finally have lo: "c - c / 2 ^ 50 \<le> ?a4" using l4 by (simp add: algebra_simps)
  have "?a4 \<le> c * (p * p * p * p)" using u4 by (simp add: c_def algebra_simps)
  also have "\<dots> \<le> c * (1 + 1 / 2 ^ 50)" using p4 c0 by (intro mult_left_mono)
  finally have hi: "?a4 \<le> c + c / 2 ^ 50" by (simp add: algebra_simps)
  define d where "d = c / 2 ^ 50"
  have "c - d \<le> ?a4" "?a4 \<le> c + d" using lo hi by (simp_all only: d_def)
  then have "\<bar>?a4 - c\<bar> \<le> d" by linarith
  then show ?thesis by (simp only: g c_def d_def)
qed



lemma gate_square:
  assumes "0 \<le> t"
  shows "t / 2 ^ 50 < fmod t (1 / 4) \<and> fmod t (1 / 4) < 1 / 8 - t / 2 ^ 50 \<longrightarrow> gate t = 1"
    and "1 / 8 + t / 2 ^ 50 \<le> fmod t (1 / 4) \<and> fmod t (1 / 4) < 1 / 4 - t / 2 ^ 50 \<longrightarrow> gate t = 0"
proof -
  define n where "n = \<lfloor>t / (1 / 4)\<rfloor>"
  define r where "r = fmod t (1 / 4)"
  define m where "m = t / 2 ^ 50"
  define d where "d = gateArg t - 2 * pi * 4 * t"
  have r_eq: "r = t - real_of_int n / 4"
    using fmod_nonneg(1) [OF assms, of "1 / 4"] by (simp add: r_def n_def)
  have "\<bar>d\<bar> \<le> 2 * pi * 4 * t / 2 ^ 50" unfolding d_def by (rule gateArg_bounds [OF assms])
  then have dm: "\<bar>d\<bar> \<le> 8 * pi * m" by (simp add: m_def)
  have arg: "gateArg t = (8 * pi * r + d) + (2 * pi) * real_of_int n"
    unfolding r_eq d_def by (simp add: algebra_simps)
  have s: "sin (gateArg t) = sin (8 * pi * r + d)"
    by (simp only: arg sin_add sin_int_2pin cos_int_2pin) simp
  have g: "gate t = (if sin (8 * pi * r + d) > 0 then 1 else 0)"
    by (simp only: gate_def s)
  have pi8: "0 < 8 * pi" by simp
  show "t / 2 ^ 50 < fmod t (1 / 4) \<and> fmod t (1 / 4) < 1 / 8 - t / 2 ^ 50 \<longrightarrow> gate t = 1"
  proof
    assume "t / 2 ^ 50 < fmod t (1 / 4) \<and> fmod t (1 / 4) < 1 / 8 - t / 2 ^ 50"
    then have h: "m < r" "r + m < 1 / 8" by (simp_all add: m_def r_def)
    have "8 * pi * m < 8 * pi * r" using h(1) pi8 by (intro mult_strict_left_mono)
    then have lo: "0 < 8 * pi * r + d" using dm by linarith
    have "8 * pi * (r + m) < 8 * pi * (1 / 8)" using h(2) pi8 by (intro mult_strict_left_mono)
    then have "8 * pi * r + 8 * pi * m < pi" by (simp add: algebra_simps)
    then have hi: "8 * pi * r + d < pi" using dm by linarith
    have "0 < sin (8 * pi * r + d)" using lo hi by (rule sin_gt_zero)
    then show "gate t = 1" by (simp add: g)
  qed
  show "1 / 8 + t / 2 ^ 50 \<le> fmod t (1 / 4) \<and> fmod t (1 / 4) < 1 / 4 - t / 2 ^ 50 \<longrightarrow> gate t = 0"
  proof
    assume "1 / 8 + t / 2 ^ 50 \<le> fmod t (1 / 4) \<and> fmod t (1 / 4) < 1 / 4 - t / 2 ^ 50"
    then have h: "1 / 8 + m \<le> r" "r + m < 1 / 4" by (simp_all add: m_def r_def)
    have "8 * pi * (1 / 8 + m) \<le> 8 * pi * r" using h(1) pi8 by (intro mult_left_mono) simp_all
    then have "pi + 8 * pi * m \<le> 8 * pi * r" by (simp add: algebra_simps)
    then have lo: "pi \<le> 8 * pi * r + d" using dm by linarith
    have "8 * pi * (r + m) < 8 * pi * (1 / 4)" using h(2) pi8 by (intro mult_strict_left_mono)
    then have "8 * pi * r + 8 * pi * m < 2 * pi" by (simp add: algebra_simps)
    then have hi: "8 * pi * r + d < 2 * pi" using dm by linarith
    have "sin (8 * pi * r + d) \<le> 0" using lo hi by (rule sin_le_zero)
    then show "gate t = 0" by (simp add: g)
  qed
qed

lemma frame_time:
  "0 \<le> fl (real i / real rate)"
  "\<bar>fl (real i / real rate) - real i / real rate\<bar> \<le> (real i / real rate) / 2 ^ 53"
proof -
  show "0 \<le> fl (real i / real rate)" by (rule fl_nonneg) simp
  show "\<bar>fl (real i / real rate) - real i / real rate\<bar> \<le> (real i / real rate) / 2 ^ 53"
    using fl_error [of "real i / real rate"] by simp
qed

text \<open>
  C8. In an UPBEAT track, at the time \<open>t\<close> of a frame (the double nearest to
  \<open>i / sampleRate\<close>), both channels carry \<open>kick * 0.4 + hat\<close>. The position \<open>beatPos\<close> is
  the exact remainder of \<open>t\<close> by the 0.5 s beat; the kick is
  \<open>sin (2 * pi * 60 * beatPos) * exp (- 20 * beatPos)\<close> while \<open>beatPos\<close> is below the double
  literal 0.1, and 0 otherwise. The hat is one noise draw of absolute value at most 0.1
  while the remainder of \<open>t\<close> by the quarter second is below the double literal 0.05, and 0
  otherwise; the two literals are within one part in \<open>2 ^ 53\<close> of 0.1 and 0.05. The chord
  \<open>sin (2 * pi * 220 * t) + sin (2 * pi * 330 * t)\<close> is scaled by 0.05 and by the gate on the
  left, by the complement of the gate on the right. The gate is 1 where the sine of the
  rounded argument is positive; the argument is within \<open>2 * pi * 4 * t / 2 ^ 50\<close> of
  \<open>2 * pi * 4 * t\<close>, so the gate is the 4 Hz square wave, 1 in the first half of each quarter
  second and 0 in the second, at every time further than \<open>t / 2 ^ 50\<close> from an edge.
\<close>

theorem C8_upbeat_samples:
  assumes "generateBackgroundTrack rnd k rate UPBEAT dur = Inr (buf, k')"
    and "i < bufLength buf"
    and "\<forall>n. 0 \<le> rnd n \<and> rnd n < 1"
  shows "let t = fl (real i / real rate);
             hat = (if fmod t (1 / 4) < fl 0.05
                    then (rnd (k + drawsBetween UPBEAT rate 0 i) * 2 - 1) * 0.1 else 0);
             shared = kick t * 0.4 + hat
         in channelData buf ! 0 ! i = (shared + chord t * 0.05 * gate t) * envelope dur t \<and>
            channelData buf ! 1 ! i = (shared + chord t * 0.05 * (1 - gate t)) * envelope dur t \<and>
            \<bar>t - real i / real rate\<bar> \<le> (real i / real rate) / 2 ^ 53 \<and>
            beatPos t = fmod t (1 / 2) \<and> 0 \<le> beatPos t \<and> beatPos t < 1 / 2 \<and>
            t = 1 / 2 * real_of_int \<lfloor>t / (1 / 2)\<rfloor> + beatPos t \<and>
            kick t = (if beatPos t < fl 0.1
                      then sin (2 * pi * 60 * beatPos t) * exp (- 20 * beatPos t) else 0) \<and>
            \<bar>fl 0.1 - 0.1\<bar> \<le> 0.1 / 2 ^ 53 \<and>
            0 \<le> fmod t (1 / 4) \<and> fmod t (1 / 4) < 1 / 4 \<and>
            \<bar>fl 0.05 - 0.05\<bar> \<le> 0.05 / 2 ^ 53 \<and>
            \<bar>hat\<bar> \<le> 0.1 \<and>
            chord t = sin (2 * pi * 220 * t) + sin (2 * pi * 330 * t) \<and>
            gate t = (if sin (gateArg t) > 0 then 1 else 0) \<and>
            \<bar>gateArg t - 2 * pi * 4 * t\<bar> \<le> 2 * pi * 4 * t / 2 ^ 50 \<and>
            (t / 2 ^ 50 < fmod t (1 / 4) \<and> fmod t (1 / 4) < 1 / 8 - t / 2 ^ 50 \<longrightarrow> gate t = 1) \<and>
            (1 / 8 + t / 2 ^ 50 \<le> fmod t (1 / 4) \<and> fmod t (1 / 4) < 1 / 4 - t / 2 ^ 50
               \<longrightarrow> gate t = 0)"
proof -
  let ?t = "fl (real i / real rate)"
  let ?hat = "if fmod ?t (1 / 4) < fl 0.05
              then (rnd (k + drawsBetween UPBEAT rate 0 i) * 2 - 1) * 0.1 else 0"
  note t0 = frame_time(1) [of i rate]
  have pL: "preEnvelope UPBEAT rnd k rate 0 i =
      kick ?t * 0.4 + ?hat + chord ?t * 0.05 * gate ?t"
    by (simp add: preEnvelope_def synthSample_def upbeatSample_def hatActive_eq Let_def)
  have pR: "preEnvelope UPBEAT rnd k rate 1 i =
      kick ?t * 0.4 + ?hat + chord ?t * 0.05 * (1 - gate ?t)"
    by (simp add: preEnvelope_def synthSample_def upbeatSample_def hatActive_eq Let_def)
  have L: "channelData buf ! 0 ! i =
      (kick ?t * 0.4 + ?hat + chord ?t * 0.05 * gate ?t) * envelope dur ?t"
    using generateBackgroundTrack_Inr(7) [OF assms(1) _ assms(2), of 0] by (simp only: pL)
  have R: "channelData buf ! 1 ! i =
      (kick ?t * 0.4 + ?hat + chord ?t * 0.05 * (1 - gate ?t)) * envelope dur ?t"
    using generateBackgroundTrack_Inr(7) [OF assms(1) _ assms(2), of 1] by (simp only: pR)
  have bp: "beatPos ?t = fmod ?t (1 / 2)" by (simp add: beatPos_def beatLen_half)
  note f = fmod_nonneg [OF t0, of "1 / 2"]
  have b1: "0 \<le> beatPos ?t" "beatPos ?t < 1 / 2" using f by (simp_all add: bp)
  have b2: "?t = 1 / 2 * real_of_int \<lfloor>?t / (1 / 2)\<rfloor> + beatPos ?t"
    using f(1) by (simp add: bp)
  note f4 = fmod_nonneg [OF t0, of "1 / 4"]
  have q1: "0 \<le> fmod ?t (1 / 4)" "fmod ?t (1 / 4) < 1 / 4" using f4 by simp_all
  have kk: "kick ?t = (if beatPos ?t < fl 0.1
                      then sin (2 * pi * 60 * beatPos ?t) * exp (- 20 * beatPos ?t) else 0)"
    by (simp add: kick_def)
  have h: "\<bar>?hat\<bar> \<le> 0.1"
    using noise_bound [of "rnd (k + drawsBetween UPBEAT rate 0 i)" "0.1"] assms(3) by simp
  have ch: "chord ?t = sin (2 * pi * 220 * ?t) + sin (2 * pi * 330 * ?t)"
    by (simp add: chord_def)
  have gd: "gate ?t = (if sin (gateArg ?t) > 0 then 1 else 0)" by (simp add: gate_def)
  show ?thesis
    unfolding Let_def
    using L R frame_time(2) [of i rate] bp b1 b2 kk literal_tenth q1 literal_twentieth h ch gd
      gateArg_bounds [OF t0] gate_square [OF t0]
    by (intro conjI) assumption+
qed



text \<open>The frame at 0.3 s of a 44100 Hz track: its time is the double just below 0.3, the
  remainder by 0.25 is just below the double 0.05, and the hat is drawn.\<close>

lemma fl_three_tenths: "fl (real 13230 / real 44100) = 5404319552844595 / 2 ^ 54"
proof -
  have x: "real 13230 / real 44100 = 3 / 10" by simp
  have "fl (3 / 10) =
      real_of_int (roundTiesToEven ((3 / 10) / 2 powr real_of_int (- 2 - 52)))
        * 2 powr real_of_int (- 2 - 52)"
    by (rule fl_eqI) (simp_all add: powr_neg_numeral)
  moreover have "(3 / 10 :: real) / 2 powr real_of_int (- 2 - 52) = 3 * 2 ^ 54 / 10"
    by (simp add: powr_neg_numeral)
  moreover have "roundTiesToEven (3 * 2 ^ 54 / 10) = 5404319552844595"
    by (simp add: roundTiesToEven_def Let_def)
  ultimately show ?thesis by (simp add: x powr_neg_numeral)
qed

lemma fl_twentieth: "fl 0.05 = 7205759403792794 / 2 ^ 57"
proof -
  have "fl (5 / 100) =
      real_of_int (roundTiesToEven ((5 / 100) / 2 powr real_of_int (- 5 - 52)))
        * 2 powr real_of_int (- 5 - 52)"
    by (rule fl_eqI) (simp_all add: powr_neg_numeral)
  moreover have "(5 / 100 :: real) / 2 powr real_of_int (- 5 - 52) = 5 * 2 ^ 57 / 100"
    by (simp add: powr_neg_numeral)
  moreover have "roundTiesToEven (5 * 2 ^ 57 / 100) = 7205759403792794"
    by (simp add: roundTiesToEven_def Let_def)
  ultimately show ?thesis by (simp add: powr_neg_numeral)
qed

lemma hat_frame_13230: "hatActive (fl (real 13230 / real 44100))"
proof -
  have "fmod (5404319552844595 / 2 ^ 54) (1 / 4) = 900719925474099 / 2 ^ 54"
    by (simp add: fmod_def trunc_def)
  then show ?thesis
    by (simp only: hatActive_eq fl_three_tenths fl_twentieth) simp
qed

theorem C8_upbeat_samples_witness:
  "\<exists>buf k'. generateBackgroundTrack (\<lambda>n. 3 / 4) 0 44100 UPBEAT 3 = Inr (buf, k') \<and>
      1 < bufLength buf \<and>
      (\<forall>n. (0::real) \<le> 3 / 4 \<and> (3 / 4 :: real) < 1) \<and>
      channelData buf ! 0 ! 1 =
        (kick (fl (1 / 44100)) * 0.4 + 1 / 20 + chord (fl (1 / 44100)) * 0.05)
          * envelope 3 (fl (1 / 44100)) \<and>
      channelData buf ! 1 ! 1 =
        (kick (fl (1 / 44100)) * 0.4 + 1 / 20) * envelope 3 (fl (1 / 44100)) \<and>
      kick (fl (1 / 44100)) =
        sin (2 * pi * 60 * fl (1 / 44100)) * exp (- 20 * fl (1 / 44100)) \<and>
      0 < kick (fl (1 / 44100)) \<and> 0 < chord (fl (1 / 44100)) \<and>
      gate (fl (1 / 44100)) = 1"
proof -
  obtain buf k' where g: "generateBackgroundTrack (\<lambda>n. 3 / 4) 0 44100 UPBEAT 3 = Inr (buf, k')"
    using generateBackgroundTrack_total [of 44100 3 "\<lambda>n. 3 / 4" 0 UPBEAT] frames_3s by auto
  have len: "1 < bufLength buf"
    using generateBackgroundTrack_Inr(1) [OF g] frames_3s by simp
  have r: "\<forall>n::nat. (0::real) \<le> 3 / 4 \<and> (3 / 4 :: real) < 1" by simp
  define t where "t = fl (1 / 44100)"
  have ti: "fl (real 1 / real 44100) = t" by (simp add: t_def)
  have tpos: "0 < t" unfolding t_def by (rule fl_pos) simp
  have "t \<le> 1 / 44100 + (1 / 44100) / 2 ^ 53"
    unfolding t_def by (rule fl_bounds(2)) simp
  then have tup: "t < 1 / 44000" by simp
  have m4: "fmod t (1 / 4) = t" using tpos tup by (intro fmod_small) simp_all
  have m2: "fmod t (1 / 2) = t" using tpos tup by (intro fmod_small) simp_all
  have "(5 / 100 :: real) - (5 / 100) / 2 ^ 53 \<le> fl (5 / 100)" by (rule fl_bounds(1)) simp
  then have c05: "t < fl 0.05" using tup by simp
  have "(1 / 10 :: real) - (1 / 10) / 2 ^ 53 \<le> fl (1 / 10)" by (rule fl_bounds(1)) simp
  then have c1: "t < fl 0.1" using tup by simp
  have "t / 2 ^ 50 < t" using tpos by (simp add: field_simps)
  moreover have "t < 1 / 8 - t / 2 ^ 50" using tup tpos by (simp add: field_simps)
  ultimately have gm: "t / 2 ^ 50 < fmod t (1 / 4) \<and> fmod t (1 / 4) < 1 / 8 - t / 2 ^ 50"
    by (simp add: m4)
  from C8_upbeat_samples [OF g len r]
  have "channelData buf ! 0 ! 1 = (kick t * 0.4 + 1 / 20 + chord t * 0.05) * envelope 3 t"
    "channelData buf ! 1 ! 1 = (kick t * 0.4 + 1 / 20) * envelope 3 t"
    "kick t = sin (2 * pi * 60 * t) * exp (- 20 * t)"
    "gate t = 1"
    unfolding Let_def ti using gm c05 c1 by (simp_all add: m4 m2)
  moreover have "0 < kick t"
  proof -
    have "0 < 2 * pi * 60 * t" using tpos by simp
    moreover have "pi * (120 * t) < pi * 1" using tup by (intro mult_strict_left_mono) simp_all
    then have "2 * pi * 60 * t < pi" by (simp add: algebra_simps)
    ultimately have "0 < sin (2 * pi * 60 * t)" by (rule sin_gt_zero)
    then show ?thesis using c1 by (simp add: kick_def beatPos_def beatLen_half m2)
  qed
  moreover have "0 < chord t"
  proof -
    have "pi * (440 * t) < pi * 1" "pi * (660 * t) < pi * 1"
      using tup by (intro mult_strict_left_mono; simp)+
    then have "2 * pi * 220 * t < pi" "2 * pi * 330 * t < pi" by (simp_all add: algebra_simps)
    moreover have "0 < 2 * pi * 220 * t" "0 < 2 * pi * 330 * t" using tpos by simp_all
    ultimately have "0 < sin (2 * pi * 220 * t)" "0 < sin (2 * pi * 330 * t)"
      by (simp_all add: sin_gt_zero)
    then show ?thesis by (simp add: chord_def)
  qed
  ultimately show ?thesis using g len unfolding t_def by auto
qed





declare interleaveLoop.simps [simp del]












text \<open>A voice of 1840 frames: the exact quotient is 3381, the doubles give
  3380.9999999999995 and the rendering has 3380 frames.\<close>

lemma fl_voice_1840: "fl (real 1840 / real 24000) = 5524415542907808 / 2 ^ 56"
proof -
  have x: "real 1840 / real 24000 = 23 / 300" by simp
  have "fl (23 / 300) =
      real_of_int (roundTiesToEven ((23 / 300) / 2 powr real_of_int (- 4 - 52)))
        * 2 powr real_of_int (- 4 - 52)"
    by (rule fl_eqI) (simp_all add: powr_neg_numeral)
  moreover have "(23 / 300 :: real) / 2 powr real_of_int (- 4 - 52) = 23 * 2 ^ 56 / 300"
    by (simp add: powr_neg_numeral)
  moreover have "roundTiesToEven (23 * 2 ^ 56 / 300) = 5524415542907808"
    by (simp add: roundTiesToEven_def Let_def)
  ultimately show ?thesis by (simp add: x powr_neg_numeral)
qed

lemma render_frames_1840:
  "toUnsignedLong (fl (fl (real 1840 / real 24000) * 44100)) = 3380"
proof -
  define y :: real where "y = 5524415542907808 / 2 ^ 56 * 44100"
  have y0: "y \<noteq> 0" "2 powr real_of_int 11 \<le> \<bar>y\<bar>" "\<bar>y\<bar> < 2 powr real_of_int (11 + 1)"
    by (simp_all add: y_def)
  have "y / 2 powr real_of_int (11 - 52) = 1903333792517455725 / 256"
    by (simp add: y_def powr_neg_numeral)
  moreover have "roundTiesToEven (1903333792517455725 / 256) = 7434897627021311"
    by (simp add: roundTiesToEven_def Let_def)
  ultimately have "fl y = real_of_int 7434897627021311 * 2 powr real_of_int (11 - 52)"
    using fl_eqI [OF y0] by (simp only:)
  then have p: "fl y = 7434897627021311 / 2 ^ 41" by (simp add: powr_neg_numeral)
  have "toUnsignedLong (7434897627021311 / 2 ^ 41) = 3380"
    by (simp add: toUnsignedLong_def trunc_def)
  then have "toUnsignedLong (fl y) = 3380" by (simp only: p)
  then show ?thesis by (simp only: fl_voice_1840 y_def)
qed



end
